theory Spec2Isabelle
  imports Complex_Main
begin

section \<open>The PatchTST data pipeline of ForecastHub\<close>

text \<open>
  The development follows \<^verbatim>\<open>src/PatchTST/PatchTST.py\<close>, a script that reads a table
  with a timestamp column and numeric channels, removes outliers, fills gaps, adds
  calendar features, scales, adds lag and rolling statistics, fills again, splits the
  table chronologically, builds windowed datasets, trains, and reports a mean squared
  error.

  Conventions of the embedding:
  \<^item> a cell is a \<open>real option\<close>; \<open>None\<close> is pandas' NaN (or NaT in the timestamp column).
    Arithmetic on cell values is exact arithmetic on \<open>real\<close>: the rounding of float32 and
    float64 operations on data values is not modelled;
  \<^item> the row count and the split sizes are integers, and the two products
    \<^verbatim>\<open>len(dataset) * 0.7\<close> and \<^verbatim>\<open>len(dataset) * 0.2\<close> are modelled bit-exactly as IEEE
    binary64 operations, because \<^verbatim>\<open>int(...)\<close> turns their rounding into a visible
    difference of the split sizes;
  \<^item> a table is its timestamp column (column 0, as \<^verbatim>\<open>index_start = 1\<close> presumes) and the
    association list of its remaining columns, all numeric, in column order;
  \<^item> a Python exception is a value of type \<open>error\<close>.
\<close>

datatype error = ValueError | KeyError | IndexError

subsection \<open>Tables\<close>

type_synonym cell = "real option"
type_synonym column = "cell list"

text \<open>
  A parsed timestamp is represented by the four observations the script makes of it
  through the \<^verbatim>\<open>.dt\<close> accessor.
\<close>

record timestamp =
  dayofweek :: nat
  day :: nat
  month :: nat
  hour :: nat

record table =
  date :: "timestamp option list"
  cols :: "(string \<times> column) list"

definition len :: "table \<Rightarrow> nat" where
  "len t = length (date t)"

text \<open>\<^verbatim>\<open>dataset.columns[index_start:]\<close>: the names of the non-timestamp columns.\<close>

definition columns :: "table \<Rightarrow> string list" where
  "columns t = map fst (cols t)"

definition well_formed :: "table \<Rightarrow> bool" where
  "well_formed t \<longleftrightarrow> list_all (\<lambda>c. length (snd c) = len t) (cols t) \<and> distinct (columns t)"

definition row :: "table \<Rightarrow> nat \<Rightarrow> timestamp option \<times> cell list" where
  "row t i = (date t ! i, map (\<lambda>c. snd c ! i) (cols t))"

definition rows :: "table \<Rightarrow> (timestamp option \<times> cell list) list" where
  "rows t = map (row t) [0 ..< len t]"

text \<open>\<^verbatim>\<open>dataset[name] = values\<close>: replace the column in place, or append a new one.\<close>

fun set_col :: "string \<Rightarrow> column \<Rightarrow> (string \<times> column) list \<Rightarrow> (string \<times> column) list" where
  "set_col name v [] = [(name, v)]"
| "set_col name v (c # cs) = (if fst c = name then (name, v) # cs else c # set_col name v cs)"

text \<open>\<^verbatim>\<open>dataset[name]\<close> raises KeyError for a name that is not a column.\<close>

definition get_col :: "string \<Rightarrow> (string \<times> column) list \<Rightarrow> error + column" where
  "get_col name cs = (case map_of cs name of None \<Rightarrow> Inl KeyError | Some v \<Rightarrow> Inr v)"

definition and_then :: "error + 'a \<Rightarrow> ('a \<Rightarrow> error + 'b) \<Rightarrow> error + 'b" where
  "and_then r f = (case r of Inl e \<Rightarrow> Inl e | Inr x \<Rightarrow> f x)"

subsection \<open>Arithmetic and comparison with NaN\<close>

definition cell_op :: "(real \<Rightarrow> real \<Rightarrow> real) \<Rightarrow> cell \<Rightarrow> cell \<Rightarrow> cell" where
  "cell_op f a b = (case a of None \<Rightarrow> None | Some x \<Rightarrow> (case b of None \<Rightarrow> None | Some y \<Rightarrow> Some (f x y)))"

text \<open>A comparison with NaN on either side is false.\<close>

definition cell_lt :: "cell \<Rightarrow> cell \<Rightarrow> bool" where
  "cell_lt a b = (case a of None \<Rightarrow> False | Some x \<Rightarrow> (case b of None \<Rightarrow> False | Some y \<Rightarrow> x < y))"

fun present :: "'a option list \<Rightarrow> 'a list" where
  "present [] = []"
| "present (None # xs) = present xs"
| "present (Some v # xs) = v # present xs"

text \<open>
  \<^verbatim>\<open>quantile(q)\<close> of pandas and \<^verbatim>\<open>nanpercentile\<close> of numpy, with linear interpolation:
  missing values are skipped, the position \<open>(n - 1) * q\<close> is split into its integer part
  and its fraction, and the result interpolates between the two neighbours. A column
  without values has the quantile NaN.
\<close>

definition quantile :: "real \<Rightarrow> column \<Rightarrow> cell" where
  "quantile q v =
     (let ys = sort (present v); n = length ys in
      if n = 0 then None
      else
        let h = real (n - 1) * q;
            lo = nat \<lfloor>h\<rfloor>;
            hi = min (lo + 1) (n - 1)
        in Some (ys ! lo + (ys ! hi - ys ! lo) * (h - real lo)))"

subsection \<open>Outlier removal (lines 50-57)\<close>

definition Q1 :: "column \<Rightarrow> cell" where
  "Q1 v = quantile (1 / 4) v"

definition Q3 :: "column \<Rightarrow> cell" where
  "Q3 v = quantile (3 / 4) v"

definition IQR :: "column \<Rightarrow> cell" where
  "IQR v = cell_op (-) (Q3 v) (Q1 v)"

definition lower_bound :: "column \<Rightarrow> cell" where
  "lower_bound v = cell_op (-) (Q1 v) (cell_op (*) (Some (3 / 2)) (IQR v))"

definition upper_bound :: "column \<Rightarrow> cell" where
  "upper_bound v = cell_op (+) (Q3 v) (cell_op (*) (Some (3 / 2)) (IQR v))"

text \<open>The element-wise mask of one column: below the lower or above the upper bound.\<close>

definition outlier_mask :: "column \<Rightarrow> bool list" where
  "outlier_mask v = map (\<lambda>x. cell_lt x (lower_bound v) \<or> cell_lt (upper_bound v) x) v"

text \<open>\<^verbatim>\<open>.any(axis=1)\<close>: one flag per row, true when some column's mask is.\<close>

definition any_axis1 :: "nat \<Rightarrow> bool list list \<Rightarrow> bool list" where
  "any_axis1 n masks = map (\<lambda>i. list_ex (\<lambda>m. m ! i) masks) [0 ..< n]"

text \<open>Boolean indexing \<^verbatim>\<open>dataset[keep]\<close>, column by column.\<close>

definition select_rows :: "bool list \<Rightarrow> 'a list \<Rightarrow> 'a list" where
  "select_rows keep xs = map snd (filter fst (zip keep xs))"

definition remove_outliers :: "table \<Rightarrow> table" where
  "remove_outliers dataset =
     (let mask = any_axis1 (len dataset) (map (\<lambda>c. outlier_mask (snd c)) (cols dataset));
          keep = map Not mask
      in \<lparr>date = select_rows keep (date dataset),
          cols = map (\<lambda>c. (fst c, select_rows keep (snd c))) (cols dataset)\<rparr>)"

subsection \<open>Filling missing values (lines 59-61 and 85-87)\<close>

fun ffill_from :: "'a option \<Rightarrow> 'a option list \<Rightarrow> 'a option list" where
  "ffill_from prev [] = []"
| "ffill_from prev (None # xs) = prev # ffill_from prev xs"
| "ffill_from prev (Some v # xs) = Some v # ffill_from (Some v) xs"

definition ffill :: "'a option list \<Rightarrow> 'a option list" where
  "ffill xs = ffill_from None xs"

fun bfill :: "'a option list \<Rightarrow> 'a option list" where
  "bfill [] = []"
| "bfill (Some v # xs) = Some v # bfill xs"
| "bfill (None # xs) = (case bfill xs of [] \<Rightarrow> [None] | y # ys \<Rightarrow> y # y # ys)"

definition ffill_table :: "table \<Rightarrow> table" where
  "ffill_table t = \<lparr>date = ffill (date t), cols = map (\<lambda>c. (fst c, ffill (snd c))) (cols t)\<rparr>"

definition bfill_table :: "table \<Rightarrow> table" where
  "bfill_table t = \<lparr>date = bfill (date t), cols = map (\<lambda>c. (fst c, bfill (snd c))) (cols t)\<rparr>"

definition fill_missing :: "table \<Rightarrow> table" where
  "fill_missing t = bfill_table (ffill_table t)"

subsection \<open>Calendar features (lines 63-67)\<close>

definition dt :: "(timestamp \<Rightarrow> nat) \<Rightarrow> timestamp option list \<Rightarrow> column" where
  "dt field ts = map (map_option (\<lambda>s. real (field s))) ts"

definition add_time_features :: "table \<Rightarrow> table" where
  "add_time_features dataset =
     (let c1 = set_col ''day_of_week'' (dt dayofweek (date dataset)) (cols dataset);
          c2 = set_col ''day_of_month'' (dt day (date dataset)) c1;
          c3 = set_col ''month'' (dt month (date dataset)) c2;
          c4 = set_col ''hour'' (dt hour (date dataset)) c3
      in \<lparr>date = date dataset, cols = c4\<rparr>)"

subsection \<open>Robust scaling (lines 69-77)\<close>

text \<open>
  \<^verbatim>\<open>sklearn.preprocessing.RobustScaler\<close> with its default parameters: per column the
  centre is the median and the scale the difference of the 75th and 25th percentiles,
  both ignoring NaN; a scale of zero is replaced by one. Fitting raises ValueError on an
  input without rows or without columns.
\<close>

record scaler =
  centers :: "cell list"
  scales :: "cell list"

definition handle_zeros_in_scale :: "cell \<Rightarrow> cell" where
  "handle_zeros_in_scale s = (case s of None \<Rightarrow> None | Some x \<Rightarrow> if x = 0 then Some 1 else Some x)"

definition fit :: "nat \<Rightarrow> column list \<Rightarrow> error + scaler" where
  "fit n_samples X =
     (if n_samples = 0 \<or> X = [] then Inl ValueError
      else Inr \<lparr>centers = map (quantile (1 / 2)) X,
                scales = map (\<lambda>v. handle_zeros_in_scale
                                     (cell_op (-) (quantile (3 / 4) v) (quantile (1 / 4) v))) X\<rparr>)"

definition transform_column :: "cell \<Rightarrow> cell \<Rightarrow> column \<Rightarrow> column" where
  "transform_column c s v = map (\<lambda>x. cell_op (/) (cell_op (-) x c) s) v"

definition transform :: "scaler \<Rightarrow> column list \<Rightarrow> column list" where
  "transform sc X = map (\<lambda>(c, s, v). transform_column c s v) (zip (centers sc) (zip (scales sc) X))"

definition fit_transform :: "nat \<Rightarrow> column list \<Rightarrow> error + scaler \<times> column list" where
  "fit_transform n_samples X = and_then (fit n_samples X) (\<lambda>sc. Inr (sc, transform sc X))"

text \<open>
  Lines 71-77: fit on all non-timestamp columns, and write the scaled values back by
  position.
\<close>

definition scale_dataset :: "table \<Rightarrow> error + scaler \<times> table" where
  "scale_dataset dataset =
     and_then (fit_transform (len dataset) (map snd (cols dataset)))
       (\<lambda>(sc, scaled_values).
          Inr (sc, \<lparr>date = date dataset,
                    cols = map (\<lambda>(c, v). (fst c, v)) (zip (cols dataset) scaled_values)\<rparr>))"

subsection \<open>Lag and rolling features (lines 79-83)\<close>

definition shift1 :: "column \<Rightarrow> column" where
  "shift1 v = take (length v) (None # v)"

definition mean :: "real list \<Rightarrow> real" where
  "mean xs = sum_list xs / real (length xs)"

text \<open>The sample standard deviation (one degree of freedom removed).\<close>

definition std :: "real list \<Rightarrow> real" where
  "std xs = sqrt (sum_list (map (\<lambda>x. (x - mean xs)\<^sup>2) xs) / real (length xs - 1))"

text \<open>
  \<^verbatim>\<open>rolling(window=w)\<close> followed by an aggregate: the window of row \<open>i\<close> is the rows
  \<open>i - w + 1 .. i\<close>, and the aggregate is NaN unless the window holds \<open>w\<close> observed values
  (\<^verbatim>\<open>min_periods\<close> defaults to the window size).
\<close>

definition aggregate :: "nat \<Rightarrow> (real list \<Rightarrow> real) \<Rightarrow> column \<Rightarrow> cell" where
  "aggregate w f window = (let obs = present window in if length obs < w then None else Some (f obs))"

definition rolling :: "nat \<Rightarrow> (real list \<Rightarrow> real) \<Rightarrow> column \<Rightarrow> column" where
  "rolling w f v =
     map (\<lambda>i. if i + 1 < w then None else aggregate w f (take w (drop (i + 1 - w) v)))
       [0 ..< length v]"

definition assign_from ::
  "string \<Rightarrow> string \<Rightarrow> (column \<Rightarrow> column) \<Rightarrow> (string \<times> column) list \<Rightarrow> error + (string \<times> column) list" where
  "assign_from col name f cs = and_then (get_col col cs) (\<lambda>v. Inr (set_col name (f v) cs))"

definition lag_rolling_step :: "string \<Rightarrow> (string \<times> column) list \<Rightarrow> error + (string \<times> column) list" where
  "lag_rolling_step col cs =
     and_then (assign_from col (col @ ''_lag1'') shift1 cs) (\<lambda>cs1.
     and_then (assign_from col (col @ ''_rolling_mean'') (rolling 5 mean) cs1) (\<lambda>cs2.
       assign_from col (col @ ''_rolling_std'') (rolling 5 std) cs2))"

fun for_each :: "('a \<Rightarrow> 's \<Rightarrow> error + 's) \<Rightarrow> 'a list \<Rightarrow> 's \<Rightarrow> error + 's" where
  "for_each body [] s = Inr s"
| "for_each body (x # xs) s = and_then (body x s) (for_each body xs)"

text \<open>The loop runs over the column names as they are when it starts.\<close>

definition add_lag_rolling :: "table \<Rightarrow> error + table" where
  "add_lag_rolling dataset =
     and_then (for_each lag_rolling_step (columns dataset) (cols dataset))
       (\<lambda>cs. Inr \<lparr>date = date dataset, cols = cs\<rparr>)"

subsection \<open>The preprocessing as a whole (lines 50-87)\<close>

definition filtered :: "table \<Rightarrow> table" where
  "filtered dataset = fill_missing (remove_outliers dataset)"

definition preprocess :: "table \<Rightarrow> error + scaler \<times> table" where
  "preprocess dataset =
     and_then (scale_dataset (add_time_features (filtered dataset))) (\<lambda>(sc, scaled).
     and_then (add_lag_rolling scaled) (\<lambda>augmented.
       Inr (sc, fill_missing augmented)))"

subsection \<open>Chronological split (lines 89-97)\<close>

text \<open>
  \<^verbatim>\<open>len(dataset) * 0.7\<close> converts the length to binary64 and multiplies it by the binary64
  constant nearest to 0.7, which is \<open>3152519739159347 / 2 ^ 52\<close>; likewise 0.2 is
  \<open>3602879701896397 / 2 ^ 54\<close>. Both steps round to nearest, ties to even, at 53 significant
  bits. \<open>round53\<close> is that rounding on a natural number (read at any fixed binary scale),
  and \<^verbatim>\<open>int(...)\<close> drops the fraction. Lengths stay far below the overflow threshold of
  binary64.
\<close>

fun bitlen :: "nat \<Rightarrow> nat" where
  "bitlen n = (if n = 0 then 0 else Suc (bitlen (n div 2)))"

declare bitlen.simps [simp del]

definition round53 :: "nat \<Rightarrow> nat" where
  "round53 p =
     (let b = bitlen p in
      if b \<le> 53 then p
      else
        let s = b - 53;
            q = p div 2 ^ s;
            r = p mod 2 ^ s;
            h = 2 ^ (s - 1)
        in (if r > h \<or> (r = h \<and> odd q) then q + 1 else q) * 2 ^ s)"

text \<open>\<^verbatim>\<open>int(n * x)\<close> for the binary64 constant \<open>x = m / 2 ^ e\<close>.\<close>

definition int_mul_float :: "nat \<Rightarrow> nat \<Rightarrow> nat \<Rightarrow> nat" where
  "int_mul_float n m e = round53 (round53 n * m) div 2 ^ e"

definition num_train :: "nat \<Rightarrow> int" where
  "num_train N = int (int_mul_float N 3152519739159347 52)"

definition num_test :: "nat \<Rightarrow> int" where
  "num_test N = int (int_mul_float N 3602879701896397 54)"

definition num_valid :: "nat \<Rightarrow> int" where
  "num_valid N = int N - num_train N - num_test N"

text \<open>A Python slice bound: negative bounds count from the end, and all are clipped.\<close>

definition slice_bound :: "nat \<Rightarrow> int \<Rightarrow> nat" where
  "slice_bound n i = (if i < 0 then nat (int n + i) else min (nat i) n)"

definition py_slice :: "int option \<Rightarrow> int option \<Rightarrow> 'a list \<Rightarrow> 'a list" where
  "py_slice start stop xs =
     (let n = length xs;
          a = (case start of None \<Rightarrow> 0 | Some i \<Rightarrow> slice_bound n i);
          b = (case stop of None \<Rightarrow> n | Some j \<Rightarrow> slice_bound n j)
      in take (b - a) (drop a xs))"

definition iloc :: "int option \<Rightarrow> int option \<Rightarrow> table \<Rightarrow> table" where
  "iloc start stop t =
     \<lparr>date = py_slice start stop (date t),
      cols = map (\<lambda>c. (fst c, py_slice start stop (snd c))) (cols t)\<rparr>"

definition train_dataset :: "table \<Rightarrow> table" where
  "train_dataset dataset = iloc None (Some (num_train (len dataset))) dataset"

definition valid_dataset :: "table \<Rightarrow> table" where
  "valid_dataset dataset =
     iloc (Some (num_train (len dataset)))
          (Some (num_train (len dataset) + num_valid (len dataset))) dataset"

definition test_dataset :: "table \<Rightarrow> table" where
  "test_dataset dataset =
     iloc (Some (num_train (len dataset) + num_valid (len dataset))) None dataset"

subsection \<open>Evaluation (lines 197-215)\<close>






subsection \<open>Sliding-window dataset (lines 99-122)\<close>

text \<open>
  Modelled from the spec: the class \<^verbatim>\<open>ForecastDFDataset\<close> is imported from the
  repository's own module \<^verbatim>\<open>models.ForecastDFDataset\<close> (line 9, which shadows the import
  of line 8), and that module is not among the source files. The definitions below follow
  section 4.5 and the data model of the spec: a WindowSample starting at row \<open>i\<close> has the
  rows \<open>[i, i + context_length)\<close> as context and the rows
  \<open>[i + context_length, i + context_length + prediction_length)\<close> as target; it is valid
  when both lie inside the segment; the WindowedDataset is the ordered collection of all
  valid samples, at stride 1.
\<close>

definition window_sample :: "nat \<Rightarrow> nat \<Rightarrow> 'a list \<Rightarrow> nat \<Rightarrow> 'a list \<times> 'a list" where
  "window_sample context_length prediction_length segment i =
     (take context_length (drop i segment),
      take prediction_length (drop (i + context_length) segment))"

definition valid_start :: "nat \<Rightarrow> nat \<Rightarrow> 'a list \<Rightarrow> nat \<Rightarrow> bool" where
  "valid_start context_length prediction_length segment i \<longleftrightarrow>
     i + context_length + prediction_length \<le> length segment"

definition ForecastDFDataset :: "nat \<Rightarrow> nat \<Rightarrow> 'a list \<Rightarrow> ('a list \<times> 'a list) list" where
  "ForecastDFDataset context_length prediction_length segment =
     map (window_sample context_length prediction_length segment)
       (filter (valid_start context_length prediction_length segment)
          [0 ..< Suc (length segment)])"

subsection \<open>Bounds and missing cells\<close>

text \<open>
  The reading of "the value lies within the bounds" used below: a missing value, or a
  missing bound, puts nothing outside.
\<close>

definition within_bounds :: "cell \<Rightarrow> cell \<Rightarrow> cell \<Rightarrow> bool" where
  "within_bounds lo hi x =
     (case x of None \<Rightarrow> True
      | Some v \<Rightarrow> (case lo of None \<Rightarrow> True | Some l \<Rightarrow> l \<le> v)
                 \<and> (case hi of None \<Rightarrow> True | Some h \<Rightarrow> v \<le> h))"

definition has_value :: "'a option list \<Rightarrow> bool" where
  "has_value xs = list_ex (\<lambda>x. x \<noteq> None) xs"

definition all_present :: "'a option list \<Rightarrow> bool" where
  "all_present xs = list_all (\<lambda>x. x \<noteq> None) xs"

definition no_missing :: "table \<Rightarrow> bool" where
  "no_missing t \<longleftrightarrow> all_present (date t) \<and> list_all (\<lambda>c. all_present (snd c)) (cols t)"

subsection \<open>The columns the loop adds\<close>

text \<open>
  The three columns one iteration of the loop derives from a column, and the condition on
  column names under which no derived name is already taken.
\<close>

definition derived :: "string \<times> column \<Rightarrow> (string \<times> column) list" where
  "derived c =
     [(fst c @ ''_lag1'', shift1 (snd c)),
      (fst c @ ''_rolling_mean'', rolling 5 mean (snd c)),
      (fst c @ ''_rolling_std'', rolling 5 std (snd c))]"

definition derived_names :: "string \<Rightarrow> string list" where
  "derived_names n = [n @ ''_lag1'', n @ ''_rolling_mean'', n @ ''_rolling_std'']"

definition fresh_names :: "string list \<Rightarrow> bool" where
  "fresh_names ns \<longleftrightarrow> list_all (\<lambda>n. list_all (\<lambda>d. d \<notin> set ns) (derived_names n)) ns"

subsection \<open>Closed forms of the stages\<close>

text \<open>
  What the scaling stage and the loop compute, written as plain functions; the lemmas of
  the next section show that the script computes these.
\<close>

definition scale_of :: "column \<Rightarrow> cell" where
  "scale_of v = handle_zeros_in_scale (cell_op (-) (quantile (3 / 4) v) (quantile (1 / 4) v))"

definition robust_scaled :: "column \<Rightarrow> column" where
  "robust_scaled v = transform_column (quantile (1 / 2) v) (scale_of v) v"

definition fitted :: "table \<Rightarrow> scaler" where
  "fitted u = \<lparr>centers = map (\<lambda>c. quantile (1 / 2) (snd c)) (cols u),
               scales = map (\<lambda>c. scale_of (snd c)) (cols u)\<rparr>"

definition scaled :: "table \<Rightarrow> table" where
  "scaled u = \<lparr>date = date u, cols = map (\<lambda>c. (fst c, robust_scaled (snd c))) (cols u)\<rparr>"

definition augmented :: "table \<Rightarrow> table" where
  "augmented u = \<lparr>date = date u, cols = cols u @ concat (map derived (cols u))\<rparr>"

definition with_name :: "string \<Rightarrow> string list \<Rightarrow> string list" where
  "with_name n ns = (if n \<in> set ns then ns else ns @ [n])"

definition calendar_names :: "string list \<Rightarrow> string list" where
  "calendar_names ns =
     with_name ''hour'' (with_name ''month'' (with_name ''day_of_month''
       (with_name ''day_of_week'' ns)))"

text \<open>The column of a name, empty when there is none.\<close>

definition col :: "table \<Rightarrow> string \<Rightarrow> column" where
  "col t n = (case get_col n (cols t) of Inl e \<Rightarrow> [] | Inr v \<Rightarrow> v)"


subsection \<open>Example tables\<close>

definition stamp :: "nat \<Rightarrow> timestamp option" where
  "stamp h = Some \<lparr>dayofweek = 4, day = 1, month = 7, hour = h\<rparr>"

definition table_a :: table where
  "table_a = \<lparr>date = map stamp [0, 1, 2, 3, 4],
              cols = [(''x'', [Some 0, Some 1, Some 2, Some 3, Some 4])]\<rparr>"

definition table_b :: table where
  "table_b = \<lparr>date = map stamp [0, 1, 2, 3, 4],
              cols = [(''x'', [Some 0, Some 1, Some 2, Some 4, Some 4])]\<rparr>"

definition table_c :: table where
  "table_c = \<lparr>date = map stamp [0, 1, 2, 3, 4],
              cols = [(''x'', [Some 1, Some 1, Some 1, Some 1, Some 5])]\<rparr>"

definition table_e :: table where
  "table_e = \<lparr>date = map stamp [0, 1, 2, 3, 4, 5],
              cols = [(''x'', [Some 0, Some 1, Some 2, Some 3, Some 4, Some 5])]\<rparr>"

definition table_d :: table where
  "table_d = \<lparr>date = map stamp [0, 1, 2, 3, 4],
              cols = [(''a'', [Some 5, None, None, None, None]),
                      (''b'', [Some 100, Some 1, Some 1, Some 1, Some 1])]\<rparr>"

section \<open>Properties\<close>

subsection \<open>Chronological split\<close>

lemma bitlen_upper: "n < 2 ^ bitlen n"
proof (induction n rule: bitlen.induct)
  case (1 n)
  show ?case
  proof (cases "n = 0")
    case True
    then show ?thesis by (simp add: bitlen.simps)
  next
    case False
    with 1 have "n div 2 < 2 ^ bitlen (n div 2)" by simp
    then have "n < 2 * 2 ^ bitlen (n div 2)" by linarith
    with False show ?thesis by (subst bitlen.simps) simp
  qed
qed

lemma bitlen_lower: "0 < n \<Longrightarrow> 2 ^ (bitlen n - 1) \<le> n"
proof (induction n rule: bitlen.induct)
  case (1 n)
  show ?case
  proof (cases "n div 2 = 0")
    case True
    with 1(2) have "n = 1" by linarith
    then show ?thesis by (simp add: bitlen.simps)
  next
    case False
    with 1 have ih: "2 ^ (bitlen (n div 2) - 1) \<le> n div 2" by simp
    from False have pos: "0 < bitlen (n div 2)" by (subst bitlen.simps) simp
    have "bitlen n = Suc (bitlen (n div 2))" using 1(2) by (subst bitlen.simps) simp
    then have "(2::nat) ^ (bitlen n - 1) = 2 * 2 ^ (bitlen (n div 2) - 1)"
      using pos by (cases "bitlen (n div 2)") simp_all
    with ih show ?thesis by linarith
  qed
qed

lemma bitlen_le: "n < 2 ^ k \<Longrightarrow> bitlen n \<le> k"
proof (rule ccontr)
  assume lt: "n < 2 ^ k" and "\<not> bitlen n \<le> k"
  then have k: "k \<le> bitlen n - 1" by simp
  have "0 < n" using \<open>\<not> bitlen n \<le> k\<close> by (cases "n = 0") (simp_all add: bitlen.simps)
  then have "2 ^ (bitlen n - 1) \<le> n" by (rule bitlen_lower)
  moreover have "(2::nat) ^ k \<le> 2 ^ (bitlen n - 1)" using k by (simp add: power_increasing)
  ultimately show False using lt by linarith
qed

lemma round53_exact: "n < 2 ^ 53 \<Longrightarrow> round53 n = n"
  by (simp add: round53_def bitlen_le)

text \<open>Case analysis of the rounding step.\<close>

lemma round53_cases:
  assumes "53 < bitlen p"
  obtains s m r where "0 < s" "p = m + r" "r < 2 ^ s" "2 ^ s dvd m" "2 ^ 52 * 2 ^ s \<le> m"
    "round53 p = m \<and> 2 * r \<le> 2 ^ s \<or> round53 p = m + 2 ^ s \<and> 2 ^ s \<le> 2 * r"
proof -
  define s where "s = bitlen p - 53"
  define q where "q = p div 2 ^ s"
  define r where "r = p mod 2 ^ s"
  have s: "0 < s" using assms by (simp add: s_def)
  have p: "p = q * 2 ^ s + r" by (simp only: q_def r_def div_mult_mod_eq)
  have r: "r < 2 ^ s" by (simp add: r_def)
  from s have h: "(2::nat) ^ s = 2 * 2 ^ (s - 1)" by (cases s) simp_all
  have "0 < p" using assms by (cases "p = 0") (simp_all add: bitlen.simps)
  then have "2 ^ (bitlen p - 1) \<le> p" by (rule bitlen_lower)
  moreover have "bitlen p - 1 = 52 + s" using assms by (simp add: s_def)
  ultimately have "2 ^ 52 * 2 ^ s \<le> p" by (simp add: power_add)
  then have "2 ^ 52 \<le> q" unfolding q_def
    by (simp add: less_eq_div_iff_mult_less_eq)
  then have q52: "2 ^ 52 * 2 ^ s \<le> q * 2 ^ s" by simp
  have rd: "round53 p = (if r > 2 ^ (s - 1) \<or> (r = 2 ^ (s - 1) \<and> odd q) then q + 1 else q) * 2 ^ s"
    using assms by (simp add: round53_def Let_def s_def q_def r_def)
  have "round53 p = q * 2 ^ s \<and> 2 * r \<le> 2 ^ s
        \<or> round53 p = q * 2 ^ s + 2 ^ s \<and> 2 ^ s \<le> 2 * r"
    unfolding rd h by auto
  with s p r q52 show thesis using that [of s "q * 2 ^ s" r] by simp
qed

lemma round53_upper: "round53 p * 2 ^ 53 \<le> p * 2 ^ 53 + p"
proof (cases "53 < bitlen p")
  case False
  then show ?thesis by (simp add: round53_def)
next
  case True
  then obtain s m r where *: "p = m + r" "(2::nat) ^ 52 * 2 ^ s \<le> m"
    "round53 p = m \<and> 2 * r \<le> 2 ^ s \<or> round53 p = m + 2 ^ s \<and> 2 ^ s \<le> 2 * r"
    by (rule round53_cases)
  define t :: nat where "t = 2 ^ s"
  from * show ?thesis unfolding t_def [symmetric] by auto
qed

lemma round53_lower: "p * 2 ^ 53 \<le> round53 p * 2 ^ 53 + p"
proof (cases "53 < bitlen p")
  case False
  then show ?thesis by (simp add: round53_def)
next
  case True
  then obtain s m r where *: "p = m + r" "(2::nat) ^ 52 * 2 ^ s \<le> m" "r < 2 ^ s"
    "round53 p = m \<and> 2 * r \<le> 2 ^ s \<or> round53 p = m + 2 ^ s \<and> 2 ^ s \<le> 2 * r"
    by (rule round53_cases)
  define t :: nat where "t = 2 ^ s"
  from * show ?thesis unfolding t_def [symmetric] by auto
qed

text \<open>A value with at most 53 significant bits below the argument stays below the result.\<close>

lemma round53_ge_representable:
  assumes "a < 2 ^ 53" "a * 2 ^ j \<le> p"
  shows "a * 2 ^ j \<le> round53 p"
proof (cases "53 < bitlen p")
  case False
  with assms show ?thesis by (simp add: round53_def)
next
  case True
  then obtain s m r where s: "0 < s" and p: "p = m + r" and r: "r < 2 ^ s"
    and dvd: "2 ^ s dvd m" and big: "(2::nat) ^ 52 * 2 ^ s \<le> m"
    and rd: "round53 p = m \<and> 2 * r \<le> 2 ^ s \<or> round53 p = m + 2 ^ s \<and> 2 ^ s \<le> 2 * r"
    by (rule round53_cases)
  have low: "m \<le> round53 p" using rd by auto
  have "a * 2 ^ j \<le> m"
  proof (cases "s \<le> j")
    case True
    then obtain d where j: "j = s + d" using le_Suc_ex by blast
    from dvd obtain m' where m': "m = 2 ^ s * m'" by (auto simp: dvd_def)
    have x: "a * 2 ^ j = 2 ^ s * (a * 2 ^ d)" by (simp add: j power_add)
    have "2 ^ s * (a * 2 ^ d) < 2 ^ s * (m' + 1)"
      using assms(2) p r unfolding x m' by (simp add: algebra_simps)
    then have "a * 2 ^ d < m' + 1" by (simp only: mult_less_cancel1)
    then have "2 ^ s * (a * 2 ^ d) \<le> 2 ^ s * m'" by simp
    then show ?thesis unfolding x m' .
  next
    case False
    then have "j \<le> s - 1" by simp
    then have "(2::nat) ^ j \<le> 2 ^ (s - 1)" by (simp add: power_increasing)
    then have "a * 2 ^ j \<le> 2 ^ 53 * 2 ^ (s - 1)"
      using assms(1) by (simp add: mult_mono)
    also have "\<dots> = 2 ^ 52 * 2 ^ s" using s by (cases s) simp_all
    also have "\<dots> \<le> m" using big .
    finally show ?thesis .
  qed
  with low show ?thesis by linarith
qed

lemma int_mul_07_bounds:
  assumes "N < 2 ^ 50"
  shows "7 * N div 10 - 1 \<le> int_mul_float N 3152519739159347 52"
    and "int_mul_float N 3152519739159347 52 \<le> 7 * N div 10"
proof -
  define P where "P = N * 3152519739159347"
  define R where "R = round53 P"
  have N: "round53 N = N" using assms by (intro round53_exact) simp
  have f: "int_mul_float N 3152519739159347 52 = R div 2 ^ 52"
    by (simp add: int_mul_float_def N R_def P_def)
  have up: "R * 2 ^ 53 \<le> P * 2 ^ 53 + P" unfolding R_def by (rule round53_upper)
  have lo: "P * 2 ^ 53 \<le> R * 2 ^ 53 + P" unfolding R_def by (rule round53_lower)
  have "R < (7 * N div 10 + 1) * 2 ^ 52"
    using up assms unfolding P_def by simp
  then show "int_mul_float N 3152519739159347 52 \<le> 7 * N div 10"
    unfolding f by (simp add: less_mult_imp_div_less)
  have "(7 * N div 10 - 1) * 2 ^ 52 \<le> R"
    using lo assms unfolding P_def by simp
  then show "7 * N div 10 - 1 \<le> int_mul_float N 3152519739159347 52"
    unfolding f by (simp add: less_eq_div_iff_mult_less_eq)
qed

lemma int_mul_02_exact:
  assumes "N < 2 ^ 50"
  shows "int_mul_float N 3602879701896397 54 = N div 5"
proof -
  define P where "P = N * 3602879701896397"
  define R where "R = round53 P"
  have N: "round53 N = N" using assms by (intro round53_exact) simp
  have f: "int_mul_float N 3602879701896397 54 = R div 2 ^ 54"
    by (simp add: int_mul_float_def N R_def P_def)
  have up: "R * 2 ^ 53 \<le> P * 2 ^ 53 + P" unfolding R_def by (rule round53_upper)
  have "N div 5 < 2 ^ 53" using assms by simp
  moreover have "N div 5 * 2 ^ 54 \<le> P" unfolding P_def by simp
  ultimately have "N div 5 * 2 ^ 54 \<le> R" unfolding R_def by (rule round53_ge_representable)
  then have a: "N div 5 \<le> R div 2 ^ 54"
    by (simp add: less_eq_div_iff_mult_less_eq)
  have "R < (N div 5 + 1) * 2 ^ 54"
    using up assms unfolding P_def by simp
  then have b: "R div 2 ^ 54 < N div 5 + 1"
    by (simp add: less_mult_imp_div_less)
  from a b show ?thesis unfolding f by linarith
qed


lemma split_sizes:
  assumes "N < 2 ^ 50"
  shows "int (7 * N div 10) - 1 \<le> num_train N" "num_train N \<le> int (7 * N div 10)"
    "num_test N = int (N div 5)" "0 \<le> num_train N" "0 \<le> num_test N" "0 \<le> num_valid N"
    "num_train N + num_valid N + num_test N = int N"
proof -
  show a: "int (7 * N div 10) - 1 \<le> num_train N"
    using int_mul_07_bounds(1) [OF assms] unfolding num_train_def by linarith
  show b: "num_train N \<le> int (7 * N div 10)"
    using int_mul_07_bounds(2) [OF assms] unfolding num_train_def by linarith
  show c: "num_test N = int (N div 5)"
    using int_mul_02_exact [OF assms] unfolding num_test_def by simp
  show "0 \<le> num_train N" by (simp add: num_train_def)
  show "0 \<le> num_test N" by (simp add: num_test_def)
  have "7 * N div 10 + N div 5 \<le> N" by linarith
  then have "int (7 * N div 10) + int (N div 5) \<le> int N" by linarith
  with b c show "0 \<le> num_valid N" unfolding num_valid_def by linarith
  show "num_train N + num_valid N + num_test N = int N" by (simp add: num_valid_def)
qed

lemma py_slice_nonneg:
  assumes "0 \<le> a" "a \<le> b" "b \<le> int (length xs)"
  shows "py_slice None (Some a) xs = take (nat a) xs"
    and "py_slice (Some a) (Some b) xs = take (nat b - nat a) (drop (nat a) xs)"
    and "py_slice (Some a) None xs = drop (nat a) xs"
proof -
  have le: "nat a \<le> length xs" "nat b \<le> length xs" "nat a \<le> nat b"
    using assms by linarith+
  have neg: "\<not> a < 0" "\<not> b < 0" using assms by linarith+
  show "py_slice None (Some a) xs = take (nat a) xs"
    using le neg by (simp add: py_slice_def slice_bound_def Let_def min_absorb1)
  show "py_slice (Some a) (Some b) xs = take (nat b - nat a) (drop (nat a) xs)"
    using le neg by (simp add: py_slice_def slice_bound_def Let_def min_absorb1)
  show "py_slice (Some a) None xs = drop (nat a) xs"
    using le neg by (simp add: py_slice_def slice_bound_def Let_def min_absorb1)
qed

lemma py_slice_split:
  assumes "0 \<le> a" "a \<le> b" "b \<le> int (length xs)"
  shows "py_slice None (Some a) xs @ py_slice (Some a) (Some b) xs @ py_slice (Some b) None xs = xs"
proof -
  have b0: "0 \<le> b" using assms by linarith
  have "take (nat b - nat a) (drop (nat a) xs) @ drop (nat b) xs = drop (nat a) xs"
  proof -
    have "drop (nat b) xs = drop (nat b - nat a) (drop (nat a) xs)"
      using assms by (simp add: nat_le_eq_zle)
    then show ?thesis by (simp only: append_take_drop_id)
  qed
  then show ?thesis
    using py_slice_nonneg [OF assms] py_slice_nonneg(3) [OF b0 order_refl assms(3)]
    by simp
qed

lemma py_slice_as_take_drop:
  "\<exists>k m. \<forall>xs :: 'a list. length xs = n \<longrightarrow> py_slice a b xs = take k (drop m xs)"
  by (auto simp: py_slice_def Let_def)

lemma rows_iloc:
  assumes "well_formed t"
  shows "rows (iloc a b t) = py_slice a b (rows t)"
proof -
  define n where "n = len t"
  obtain k m where km: "\<And>xs :: timestamp option list. length xs = n \<Longrightarrow> py_slice a b xs = take k (drop m xs)"
    "\<And>xs :: cell list. length xs = n \<Longrightarrow> py_slice a b xs = take k (drop m xs)"
    "\<And>xs :: (timestamp option \<times> cell list) list. length xs = n \<Longrightarrow> py_slice a b xs = take k (drop m xs)"
    by (auto simp: py_slice_def Let_def)
  have cl: "\<And>c. c \<in> set (cols t) \<Longrightarrow> length (snd c) = n"
    using assms by (auto simp: well_formed_def list_all_iff n_def)
  have d: "date (iloc a b t) = take k (drop m (date t))"
    by (simp add: iloc_def km n_def len_def)
  have c: "cols (iloc a b t) = map (\<lambda>c. (fst c, take k (drop m (snd c)))) (cols t)"
    by (simp add: iloc_def km cl)
  have l: "len (iloc a b t) = min k (n - m)"
    by (simp add: len_def d n_def [unfolded len_def])
  have r: "py_slice a b (rows t) = take k (drop m (rows t))"
    by (rule km) (simp add: rows_def n_def)
  show ?thesis
  proof (rule nth_equalityI)
    have "length (rows t) = n" by (simp add: rows_def n_def)
    then have "length (py_slice a b (rows t)) = min k (n - m)" unfolding r by simp
    moreover have "length (rows (iloc a b t)) = len (iloc a b t)" by (simp add: rows_def)
    ultimately show "length (rows (iloc a b t)) = length (py_slice a b (rows t))"
      by (simp only: l)
  next
    fix i assume "i < length (rows (iloc a b t))"
    then have "i < min k (n - m)" by (simp add: rows_def l)
    then have i: "i < k" "m + i < n" by linarith+
    have "rows (iloc a b t) ! i = row (iloc a b t) i"
      using i by (simp add: rows_def l)
    also have "\<dots> = row t (m + i)"
      using i by (auto simp: row_def d c n_def len_def cl [unfolded n_def len_def])
    also have "\<dots> = py_slice a b (rows t) ! i"
      using i unfolding r by (simp add: rows_def n_def)
    finally show "rows (iloc a b t) ! i = py_slice a b (rows t) ! i" .
  qed
qed

text \<open>
  C2 (as amended). For a well-formed table of fewer than \<open>2 ^ 50\<close> rows, \<open>num_train\<close> is
  \<open>\<lfloor>0.7 N\<rfloor>\<close> or one less (the binary64 product can fall just below an integer),
  \<open>num_test\<close> is \<open>\<lfloor>0.2 N\<rfloor>\<close>, \<open>num_valid\<close> is the non-negative remainder, and the three
  segments are consecutive blocks of rows of these lengths whose concatenation is the
  table: contiguous, in order, disjoint and exhaustive.
\<close>

theorem split_partition:
  assumes "well_formed t" "len t < 2 ^ 50"
  shows "int (7 * len t div 10) - 1 \<le> num_train (len t)
       \<and> num_train (len t) \<le> int (7 * len t div 10)
       \<and> num_test (len t) = int (len t div 5)
       \<and> num_valid (len t) = int (len t) - num_train (len t) - num_test (len t)
       \<and> 0 \<le> num_valid (len t)
       \<and> num_train (len t) + num_valid (len t) + num_test (len t) = int (len t)
       \<and> rows (train_dataset t) = take (nat (num_train (len t))) (rows t)
       \<and> rows (valid_dataset t)
           = take (nat (num_valid (len t))) (drop (nat (num_train (len t))) (rows t))
       \<and> rows (test_dataset t)
           = drop (nat (num_train (len t)) + nat (num_valid (len t))) (rows t)
       \<and> int (len (train_dataset t)) = num_train (len t)
       \<and> int (len (valid_dataset t)) = num_valid (len t)
       \<and> int (len (test_dataset t)) = num_test (len t)
       \<and> rows (train_dataset t) @ rows (valid_dataset t) @ rows (test_dataset t) = rows t"
proof -
  define N where "N = len t"
  note s = split_sizes [OF assms(2), folded N_def]
  have lr: "length (rows t) = N" by (simp add: rows_def N_def)
  have a: "0 \<le> num_train N" by (rule s)
  have ab: "num_train N \<le> num_train N + num_valid N" using s by linarith
  have b: "num_train N + num_valid N \<le> int (length (rows t))" using s lr by linarith
  note sl = py_slice_nonneg [OF a ab b]
  have b0: "0 \<le> num_train N + num_valid N" using s by linarith
  have nb: "nat (num_train N + num_valid N) = nat (num_train N) + nat (num_valid N)"
    using s by (simp add: nat_add_distrib)
  have tr: "rows (train_dataset t) = take (nat (num_train N)) (rows t)"
    unfolding train_dataset_def rows_iloc [OF assms(1)] N_def [symmetric] by (rule sl)
  have va: "rows (valid_dataset t) = take (nat (num_valid N)) (drop (nat (num_train N)) (rows t))"
    unfolding valid_dataset_def rows_iloc [OF assms(1)] N_def [symmetric]
    using sl(2) by (simp add: nb)
  have te: "rows (test_dataset t) = drop (nat (num_train N) + nat (num_valid N)) (rows t)"
    unfolding test_dataset_def rows_iloc [OF assms(1)] N_def [symmetric]
    using py_slice_nonneg(3) [OF b0 order_refl b] by (simp add: nb)
  have lens: "\<And>u. int (len u) = int (length (rows u))" by (simp add: rows_def)
  have nle: "nat (num_train N) \<le> N" "nat (num_valid N) \<le> N - nat (num_train N)"
    "N - (nat (num_train N) + nat (num_valid N)) = nat (num_test N)"
    using s(4,5,6,7) by linarith+
  have l1: "int (len (train_dataset t)) = num_train N"
    unfolding lens tr using s(4) nle lr by simp
  have l2: "int (len (valid_dataset t)) = num_valid N"
    unfolding lens va using s(6) nle lr by simp
  have l3: "int (len (test_dataset t)) = num_test N"
    unfolding lens te using s(5) nle lr by simp
  have cat: "rows (train_dataset t) @ rows (valid_dataset t) @ rows (test_dataset t) = rows t"
  proof -
    have "drop (nat (num_train N) + nat (num_valid N)) (rows t)
            = drop (nat (num_valid N)) (drop (nat (num_train N)) (rows t))"
      by (simp add: add.commute)
    then show ?thesis unfolding tr va te by (simp only: append_take_drop_id)
  qed
  have nv: "num_valid N = int N - num_train N - num_test N" by (simp add: num_valid_def)
  show ?thesis
    unfolding N_def [symmetric]
    apply (intro conjI)
    apply (fact s(1))
    apply (fact s(2))
    apply (fact s(3))
    apply (fact nv)
    apply (fact s(6))
    apply (fact s(7))
    apply (fact tr)
    apply (fact va)
    apply (fact te)
    apply (fact l1)
    apply (fact l2)
    apply (fact l3)
    apply (fact cat)
    done
qed

theorem split_partition_witness:
  "well_formed table_a \<and> len table_a < 2 ^ 50
   \<and> num_train (len table_a) + num_valid (len table_a) + num_test (len table_a)
       = int (len table_a)
   \<and> rows (train_dataset table_a) @ rows (valid_dataset table_a) @ rows (test_dataset table_a)
       = rows table_a"
proof -
  have wf: "well_formed table_a"
    by (simp add: well_formed_def table_a_def len_def columns_def)
  have small: "len table_a < 2 ^ 50"
    by (simp add: table_a_def len_def)
  from split_partition [OF wf small] wf small show ?thesis by blast
qed

text \<open>
  At 90 rows the script takes 62 training rows, while \<open>\<lfloor>0.7 * 90\<rfloor> = 63\<close>: the binary64
  product \<^verbatim>\<open>90 * 0.7\<close> is \<^verbatim>\<open>62.99999999999999\<close>.
\<close>

theorem num_train_not_floor:
  "num_train 90 = 62 \<and> \<lfloor>7 / 10 * (90 :: real)\<rfloor> = 63"
  by (simp add: num_train_def int_mul_float_def round53_def bitlen.simps Let_def)

subsection \<open>Window count\<close>

lemma filter_le_upt_gen: "filter (\<lambda>i. i + k \<le> n) [0 ..< m] = [0 ..< min m (Suc n - k)]"
proof (induction m)
  case 0
  show ?case by simp
next
  case (Suc m)
  show ?case
  proof (cases "m + k \<le> n")
    case True
    then have "min (Suc m) (Suc n - k) = Suc m" "min m (Suc n - k) = m" by simp_all
    with Suc True show ?thesis by simp
  next
    case False
    then have "min (Suc m) (Suc n - k) = Suc n - k" "min m (Suc n - k) = Suc n - k"
      by simp_all
    with Suc False show ?thesis by simp
  qed
qed

lemma filter_le_upt: "filter (\<lambda>i. i + k \<le> n) [0 ..< Suc n] = [0 ..< Suc n - k]"
  using filter_le_upt_gen [of k n "Suc n"] by (simp only: min.absorb2 diff_le_self)

text \<open>
  C1. The number of window samples of a segment is
  \<open>max 0 (segment_length - context_length - prediction_length + 1)\<close>, computed over the
  integers; a segment shorter than \<open>context_length + prediction_length\<close> gives the empty
  dataset, which is a value and not an error.
\<close>

theorem window_count:
  "int (length (ForecastDFDataset c p seg)) =
     max 0 (int (length seg) - int c - int p + 1)
   \<and> (length seg < c + p \<longrightarrow> ForecastDFDataset c p seg = [])"
proof -
  have "valid_start c p seg = (\<lambda>i. i + (c + p) \<le> length seg)"
    by (simp add: valid_start_def fun_eq_iff add.assoc)
  then have eq: "ForecastDFDataset c p seg
          = map (window_sample c p seg) [0 ..< Suc (length seg) - (c + p)]"
    by (simp only: ForecastDFDataset_def filter_le_upt)
  show ?thesis
    unfolding eq by auto
qed

theorem window_count_witness:
  "length [1, 2, 3 :: nat] < 2 + 2 \<and> ForecastDFDataset 2 2 [1, 2, 3 :: nat] = []
   \<and> int (length (ForecastDFDataset 2 1 [1, 2, 3, 4 :: nat])) = 2"
  using window_count [of 2 2 "[1, 2, 3 :: nat]"] window_count [of 2 1 "[1, 2, 3, 4 :: nat]"]
  by simp

subsection \<open>Mean squared error\<close>



subsection \<open>Outlier removal\<close>

lemma within_bounds_iff:
  "within_bounds lo hi x \<longleftrightarrow> \<not> (cell_lt x lo \<or> cell_lt hi x)"
  by (auto simp: within_bounds_def cell_lt_def split: option.splits)

lemma select_rows_Cons:
  "select_rows (k # ks) (x # xs) = (if k then [x] else []) @ select_rows ks xs"
  by (simp add: select_rows_def)

lemma select_rows_nth:
  "length keep = length xs \<Longrightarrow>
     select_rows keep xs = map ((!) xs) (filter ((!) keep) [0 ..< length xs])"
proof (induction keep xs rule: list_induct2)
  case Nil
  show ?case by (simp add: select_rows_def)
next
  case (Cons k ks x xs)
  have "[0 ..< length (x # xs)] = 0 # map Suc [0 ..< length xs]"
    by (simp add: upt_conv_Cons map_Suc_upt del: upt_Suc)
  then have "map ((!) (x # xs)) (filter ((!) (k # ks)) [0 ..< length (x # xs)])
        = (if k then [x] else []) @ map ((!) xs) (filter ((!) ks) [0 ..< length xs])"
    by (simp add: filter_map comp_def del: upt_Suc)
  with Cons show ?case by (simp only: select_rows_Cons)
qed

lemma map_nth_indices: "map (\<lambda>k. f (idx ! k)) [0 ..< length idx] = map f idx"
  by (rule nth_equalityI) simp_all

lemma remove_outliers_indices:
  assumes "well_formed t"
  obtains idx where
    "idx = filter (\<lambda>i. \<not> list_ex (\<lambda>c. outlier_mask (snd c) ! i) (cols t)) [0 ..< len t]"
    "date (remove_outliers t) = map ((!) (date t)) idx"
    "cols (remove_outliers t) = map (\<lambda>c. (fst c, map ((!) (snd c)) idx)) (cols t)"
proof -
  define n where "n = len t"
  define keep where "keep = map Not (any_axis1 n (map (\<lambda>c. outlier_mask (snd c)) (cols t)))"
  define idx where "idx = filter ((!) keep) [0 ..< n]"
  have cl: "\<And>c. c \<in> set (cols t) \<Longrightarrow> length (snd c) = n"
    using assms by (auto simp: well_formed_def list_all_iff n_def)
  have lk: "length keep = n" by (simp add: keep_def any_axis1_def)
  have sel: "select_rows keep xs = map ((!) xs) idx" if "length xs = n" for xs :: "'a list"
    using select_rows_nth [of keep xs] lk that by (simp add: idx_def)
  have d: "date (remove_outliers t) = map ((!) (date t)) idx"
    by (simp add: remove_outliers_def Let_def keep_def [symmetric] n_def [symmetric]
        sel [OF n_def [unfolded len_def, symmetric]])
  have c: "cols (remove_outliers t) = map (\<lambda>c. (fst c, map ((!) (snd c)) idx)) (cols t)"
    by (simp add: remove_outliers_def Let_def keep_def [symmetric] n_def [symmetric] sel cl)
  have "idx = filter (\<lambda>i. \<not> list_ex (\<lambda>c. outlier_mask (snd c) ! i) (cols t)) [0 ..< len t]"
    unfolding idx_def n_def [symmetric]
    by (rule filter_cong [OF refl])
       (simp add: keep_def any_axis1_def list_ex_iff)
  with d c show thesis using that by blast
qed

lemma rows_remove_outliers:
  assumes "well_formed t"
  shows "rows (remove_outliers t)
           = map (row t) (filter (\<lambda>i. \<not> list_ex (\<lambda>c. outlier_mask (snd c) ! i) (cols t))
                            [0 ..< len t])"
proof -
  obtain idx where
    idx: "idx = filter (\<lambda>i. \<not> list_ex (\<lambda>c. outlier_mask (snd c) ! i) (cols t)) [0 ..< len t]"
    and d: "date (remove_outliers t) = map ((!) (date t)) idx"
    and c: "cols (remove_outliers t) = map (\<lambda>c. (fst c, map ((!) (snd c)) idx)) (cols t)"
    using remove_outliers_indices [OF assms] by blast
  have l: "len (remove_outliers t) = length idx" by (simp add: len_def d)
  have "rows (remove_outliers t) = map (\<lambda>k. row t (idx ! k)) [0 ..< length idx]"
    unfolding rows_def l
    by (rule map_cong [OF refl]) (simp add: row_def d c comp_def)
  also have "\<dots> = map (row t) idx" by (rule map_nth_indices)
  finally show ?thesis unfolding idx .
qed

lemma row_kept_iff:
  assumes "well_formed t" "i < len t"
  shows "\<not> list_ex (\<lambda>c. outlier_mask (snd c) ! i) (cols t)
         \<longleftrightarrow> list_all2 (\<lambda>c x. within_bounds (lower_bound (snd c)) (upper_bound (snd c)) x)
               (cols t) (snd (row t i))"
proof -
  have cl: "\<And>c. c \<in> set (cols t) \<Longrightarrow> i < length (snd c)"
    using assms by (auto simp: well_formed_def list_all_iff)
  have "list_all2 (\<lambda>c x. within_bounds (lower_bound (snd c)) (upper_bound (snd c)) x)
               (cols t) (snd (row t i))
        \<longleftrightarrow> (\<forall>c \<in> set (cols t). within_bounds (lower_bound (snd c)) (upper_bound (snd c)) (snd c ! i))"
    by (simp add: row_def list_all2_map2 list_all2_same)
  also have "\<dots> \<longleftrightarrow> \<not> list_ex (\<lambda>c. outlier_mask (snd c) ! i) (cols t)"
    using cl by (auto simp: list_ex_iff within_bounds_iff outlier_mask_def)
  finally show ?thesis by simp
qed

lemma remove_outliers_filter:
  assumes "well_formed t"
  shows "rows (remove_outliers t)
           = filter (\<lambda>r. list_all2 (\<lambda>c x. within_bounds (lower_bound (snd c)) (upper_bound (snd c)) x)
                            (cols t) (snd r)) (rows t)
         \<and> columns (remove_outliers t) = columns t"
proof -
  have "filter (\<lambda>r. list_all2 (\<lambda>c x. within_bounds (lower_bound (snd c)) (upper_bound (snd c)) x)
                            (cols t) (snd r)) (rows t)
        = map (row t) (filter (\<lambda>i. list_all2 (\<lambda>c x. within_bounds (lower_bound (snd c)) (upper_bound (snd c)) x)
                            (cols t) (snd (row t i))) [0 ..< len t])"
    by (simp add: rows_def filter_map comp_def)
  also have "filter (\<lambda>i. list_all2 (\<lambda>c x. within_bounds (lower_bound (snd c)) (upper_bound (snd c)) x)
                            (cols t) (snd (row t i))) [0 ..< len t]
        = filter (\<lambda>i. \<not> list_ex (\<lambda>c. outlier_mask (snd c) ! i) (cols t)) [0 ..< len t]"
    by (rule filter_cong [OF refl]) (simp add: row_kept_iff [OF assms])
  finally have "rows (remove_outliers t)
           = filter (\<lambda>r. list_all2 (\<lambda>c x. within_bounds (lower_bound (snd c)) (upper_bound (snd c)) x)
                            (cols t) (snd r)) (rows t)"
    by (simp only: rows_remove_outliers [OF assms])
  moreover have "columns (remove_outliers t) = columns t"
    by (simp add: columns_def remove_outliers_def Let_def comp_def)
  ultimately show ?thesis by blast
qed

lemma remove_outliers_well_formed:
  assumes "well_formed t"
  shows "well_formed (remove_outliers t)"
proof -
  obtain idx where
    d: "date (remove_outliers t) = map ((!) (date t)) idx"
    and c: "cols (remove_outliers t) = map (\<lambda>c. (fst c, map ((!) (snd c)) idx)) (cols t)"
    using remove_outliers_indices [OF assms] by blast
  show ?thesis
    using assms by (simp add: well_formed_def list_all_iff len_def columns_def d c comp_def)
qed


lemma q_eval: "Q1 [Some 1, Some 1, Some 1, Some 1, Some 5] = Some 1"
  "Q3 [Some 1, Some 1, Some 1, Some 1, Some 5] = Some 1"
  by (simp_all add: Q1_def Q3_def quantile_def Let_def)

lemma table_c_filtered:
  "remove_outliers table_c = \<lparr>date = map stamp [0, 1, 2, 3],
              cols = [(''x'', [Some 1, Some 1, Some 1, Some 1])]\<rparr>"
  by (simp add: table_c_def remove_outliers_def Let_def any_axis1_def outlier_mask_def
      lower_bound_def upper_bound_def IQR_def q_eval cell_op_def cell_lt_def
      select_rows_def len_def upt_conv_Cons)

lemma table_c_well_formed: "well_formed table_c"
  by (simp add: well_formed_def table_c_def len_def columns_def)


text \<open>
  C6 (as amended). When the first and third quartile of a column coincide at \<open>q\<close>, both
  bounds are \<open>q\<close>: the column flags a row exactly when its value is present and differs
  from \<open>q\<close>, and every such row is removed.
\<close>

theorem zero_iqr_column:
  assumes "well_formed t" "c \<in> set (cols t)" "Q1 (snd c) = Some q" "Q3 (snd c) = Some q"
    "i < len t"
  shows "IQR (snd c) = Some 0
       \<and> (outlier_mask (snd c) ! i \<longleftrightarrow> (\<exists>x. snd c ! i = Some x \<and> x \<noteq> q))
       \<and> ((\<exists>x. snd c ! i = Some x \<and> x \<noteq> q) \<longrightarrow> row t i \<notin> set (rows (remove_outliers t)))"
proof -
  have li: "i < length (snd c)"
    using assms(1,2,5) by (auto simp: well_formed_def list_all_iff)
  have iqr: "IQR (snd c) = Some 0" by (simp add: IQR_def assms cell_op_def)
  have lb: "lower_bound (snd c) = Some q" "upper_bound (snd c) = Some q"
    by (simp_all add: lower_bound_def upper_bound_def iqr assms cell_op_def)
  have mask: "outlier_mask (snd c) ! i \<longleftrightarrow> (\<exists>x. snd c ! i = Some x \<and> x \<noteq> q)"
    using li by (auto simp: outlier_mask_def lb cell_lt_def split: option.splits)
  have drop: "row t i \<notin> set (rows (remove_outliers t))" if "\<exists>x. snd c ! i = Some x \<and> x \<noteq> q"
  proof
    assume "row t i \<in> set (rows (remove_outliers t))"
    then have "list_all2 (\<lambda>c x. within_bounds (lower_bound (snd c)) (upper_bound (snd c)) x)
                 (cols t) (snd (row t i))"
      using remove_outliers_filter [OF assms(1)] by simp
    then have "\<not> list_ex (\<lambda>c. outlier_mask (snd c) ! i) (cols t)"
      using row_kept_iff [OF assms(1,5)] by simp
    with assms(2) have "\<not> outlier_mask (snd c) ! i" by (auto simp: list_ex_iff)
    with mask that show False by simp
  qed
  from iqr mask drop show ?thesis by blast
qed

theorem zero_iqr_column_witness:
  "well_formed table_c \<and> (''x'', [Some 1, Some 1, Some 1, Some 1, Some 5]) \<in> set (cols table_c)
   \<and> Q1 [Some 1, Some 1, Some 1, Some 1, Some 5] = Some 1
   \<and> Q3 [Some 1, Some 1, Some 1, Some 1, Some 5] = Some 1
   \<and> 4 < len table_c
   \<and> [Some 1, Some 1, Some 1, Some 1, Some (5 :: real)] ! 4 = Some 5
   \<and> row table_c 4 \<notin> set (rows (remove_outliers table_c))"
proof -
  have m: "(''x'', [Some 1, Some 1, Some 1, Some 1, Some 5]) \<in> set (cols table_c)"
    by (simp add: table_c_def)
  have l: "4 < len table_c" by (simp add: table_c_def len_def)
  from zero_iqr_column [OF table_c_well_formed m _ _ l, of 1] q_eval
  have "row table_c 4 \<notin> set (rows (remove_outliers table_c))" by simp
  with table_c_well_formed m l q_eval show ?thesis by simp
qed

text \<open>
  A column \<open>1, 1, 1, 1, 5\<close> has both quartiles at 1, hence an interquartile range of
  zero, and the filter removes the row holding 5.
\<close>

theorem zero_iqr_drops_row:
  "IQR [Some 1, Some 1, Some 1, Some 1, Some 5] = Some 0
   \<and> cols table_c = [(''x'', [Some 1, Some 1, Some 1, Some 1, Some 5])]
   \<and> remove_outliers table_c
       = \<lparr>date = map stamp [0, 1, 2, 3], cols = [(''x'', [Some 1, Some 1, Some 1, Some 1])]\<rparr>"
  using table_c_filtered by (simp add: IQR_def q_eval cell_op_def table_c_def)

subsection \<open>Filling\<close>

lemma length_ffill_from [simp]: "length (ffill_from p xs) = length xs"
  by (induction p xs rule: ffill_from.induct) simp_all

lemma length_ffill [simp]: "length (ffill xs) = length xs"
  by (simp add: ffill_def)

lemma length_bfill [simp]: "length (bfill xs) = length xs"
proof (induction xs rule: bfill.induct)
  case (3 xs)
  then show ?case by (cases "bfill xs") auto
qed simp_all

lemma bfill_Nil_iff [simp]: "bfill xs = [] \<longleftrightarrow> xs = []"
  using length_bfill [of xs] by (metis length_0_conv)

lemma ffill_from_Nil_iff [simp]: "ffill_from p xs = [] \<longleftrightarrow> xs = []"
  using length_ffill_from [of p xs] by (metis length_0_conv)

lemma all_present_iff: "all_present xs \<longleftrightarrow> None \<notin> set xs"
  unfolding all_present_def list_all_iff by metis

lemma has_value_iff: "has_value xs \<longleftrightarrow> (\<exists>v. Some v \<in> set xs)"
  by (auto simp: has_value_def list_ex_iff)

lemma ffill_from_complete: "p \<noteq> None \<Longrightarrow> None \<notin> set (ffill_from p xs)"
  by (induction p xs rule: ffill_from.induct) auto

lemma ffill_from_last:
  "xs \<noteq> [] \<Longrightarrow> p \<noteq> None \<or> has_value xs \<Longrightarrow> last (ffill_from p xs) \<noteq> None"
proof (induction p xs rule: ffill_from.induct)
  case (1 prev)
  then show ?case by simp
next
  case (2 prev xs)
  show ?case
  proof (cases "xs = []")
    case True
    with 2 show ?thesis by (simp add: has_value_def)
  next
    case False
    with 2 show ?thesis by (simp add: has_value_def)
  qed
next
  case (3 prev v xs)
  show ?case
  proof (cases "xs = []")
    case True
    then show ?thesis by simp
  next
    case False
    with 3 show ?thesis by simp
  qed
qed

lemma bfill_complete: "xs \<noteq> [] \<Longrightarrow> last xs \<noteq> None \<Longrightarrow> None \<notin> set (bfill xs)"
proof (induction xs)
  case Nil
  then show ?case by simp
next
  case (Cons a xs)
  show ?case
  proof (cases "xs = []")
    case True
    with Cons.prems show ?thesis by (cases a) auto
  next
    case False
    with Cons have ih: "None \<notin> set (bfill xs)" by simp
    have ne: "bfill xs \<noteq> []" using False by simp
    show ?thesis using ih ne by (cases a; cases "bfill xs") auto
  qed
qed

lemma fill_complete: "has_value xs \<Longrightarrow> all_present (bfill (ffill xs))"
proof -
  assume h: "has_value xs"
  then have ne: "xs \<noteq> []" by (auto simp: has_value_def)
  then have "last (ffill xs) \<noteq> None" unfolding ffill_def using h by (intro ffill_from_last) simp_all
  moreover have "ffill xs \<noteq> []" using ne by (simp add: ffill_def)
  ultimately show ?thesis unfolding all_present_iff by (rule bfill_complete [rotated])
qed

lemma ffill_from_id: "None \<notin> set xs \<Longrightarrow> ffill_from p xs = xs"
  by (induction p xs rule: ffill_from.induct) auto

lemma bfill_id: "None \<notin> set xs \<Longrightarrow> bfill xs = xs"
  by (induction xs rule: bfill.induct) auto

lemma ffill_id: "None \<notin> set xs \<Longrightarrow> ffill xs = xs"
  by (simp add: ffill_def ffill_from_id)

lemma fill_id: "all_present xs \<Longrightarrow> bfill (ffill xs) = xs"
  by (simp add: all_present_iff ffill_def ffill_from_id bfill_id)




text \<open>A leading run of missing cells before a complete, non-empty rest takes its first value.\<close>

lemma ffill_leading: "ffill (replicate k None @ zs) = replicate k None @ ffill zs"
  by (induction k) (simp_all add: ffill_def)

lemma bfill_leading:
  "zs \<noteq> [] \<Longrightarrow> None \<notin> set zs \<Longrightarrow> bfill (replicate k None @ zs) = replicate k (hd zs) @ zs"
proof (induction k)
  case 0
  then show ?case by (simp add: bfill_id)
next
  case (Suc k)
  then show ?case by (cases k; cases zs) (auto simp: bfill_id)
qed

lemma fill_leading:
  "zs \<noteq> [] \<Longrightarrow> all_present zs \<Longrightarrow>
     bfill (ffill (replicate k None @ zs)) = replicate k (hd zs) @ zs"
  by (simp add: ffill_leading bfill_leading all_present_iff ffill_id)

subsection \<open>The lag and rolling loop\<close>

lemma names_set_col: "fst ` set (set_col n v cs) = insert n (fst ` set cs)"
  by (induction cs) auto

lemma set_col_fresh: "n \<notin> fst ` set cs \<Longrightarrow> set_col n v cs = cs @ [(n, v)]"
  by (induction cs) auto

lemma get_col_present:
  "distinct (map fst cs) \<Longrightarrow> c \<in> set cs \<Longrightarrow> get_col (fst c) (cs @ ds) = Inr (snd c)"
  by (cases c) (simp add: get_col_def map_add_Some_iff)

lemma derived_name_inj:
  assumes "d \<in> set (derived_names n)" "d \<in> set (derived_names m)"
  shows "n = m"
proof -
  from assms obtain s s' where d: "d = n @ s" "d = m @ s'"
    and s: "s \<in> {''_lag1'', ''_rolling_mean'', ''_rolling_std''}"
           "s' \<in> {''_lag1'', ''_rolling_mean'', ''_rolling_std''}"
    by (auto simp: derived_names_def)
  have "last (n @ s) = last (m @ s')" using d by simp
  with s have "s = s'" by auto
  with d show ?thesis by simp
qed

lemma map_fst_derived: "map fst (derived c) = derived_names (fst c)"
  by (simp add: derived_def derived_names_def)

lemma lag_rolling_step_fresh:
  assumes "get_col (fst c) cs = Inr (snd c)"
    and "\<forall>d \<in> set (derived_names (fst c)). d \<notin> fst ` set cs"
  shows "lag_rolling_step (fst c) cs = Inr (cs @ derived c)"
proof -
  have g: "get_col (fst c) (cs @ ds) = Inr (snd c)" for ds
    using assms(1) by (auto simp: get_col_def split: option.splits)
  have f1: "fst c @ ''_lag1'' \<notin> fst ` set cs"
    and f2: "fst c @ ''_rolling_mean'' \<notin> fst ` set (cs @ [(fst c @ ''_lag1'', x)])"
    and f3: "fst c @ ''_rolling_std''
               \<notin> fst ` set (cs @ [(fst c @ ''_lag1'', x), (fst c @ ''_rolling_mean'', y)])"
    for x y
    using assms(2) by (auto simp: derived_names_def)
  show ?thesis
    unfolding lag_rolling_step_def assign_from_def and_then_def
    by (simp add: assms(1) g set_col_fresh [OF f1] set_col_fresh [OF f2] set_col_fresh [OF f3]
        derived_def)
qed

lemma for_each_lag_rolling:
  assumes "distinct (map fst base)" "fresh_names (map fst base)"
    and "set (qs @ ps) \<subseteq> set base" "distinct (map fst (qs @ ps))"
  shows "for_each lag_rolling_step (map fst ps) (base @ concat (map derived qs))
           = Inr (base @ concat (map derived (qs @ ps)))"
  using assms(3,4)
proof (induction ps arbitrary: qs)
  case Nil
  show ?case by simp
next
  case (Cons p ps)
  have pb: "p \<in> set base" using Cons.prems by simp
  have g: "get_col (fst p) (base @ concat (map derived qs)) = Inr (snd p)"
    by (rule get_col_present [OF assms(1) pb])
  have fr: "\<forall>d \<in> set (derived_names (fst p)). d \<notin> fst ` set (base @ concat (map derived qs))"
  proof
    fix d assume d: "d \<in> set (derived_names (fst p))"
    have "d \<notin> fst ` set base"
      using assms(2) pb d by (auto simp: fresh_names_def list_all_iff)
    moreover have "d \<notin> fst ` set (concat (map derived qs))"
    proof
      assume "d \<in> fst ` set (concat (map derived qs))"
      then obtain q where q: "q \<in> set qs" "d \<in> set (map fst (derived q))" by auto
      then have "fst p = fst q" using d derived_name_inj by (simp add: map_fst_derived)
      with q(1) Cons.prems(2) show False by auto
    qed
    ultimately show "d \<notin> fst ` set (base @ concat (map derived qs))" by auto
  qed
  have "for_each lag_rolling_step (map fst (p # ps)) (base @ concat (map derived qs))
          = for_each lag_rolling_step (map fst ps) (base @ concat (map derived (qs @ [p])))"
    by (simp add: and_then_def lag_rolling_step_fresh [OF g fr])
  also have "\<dots> = Inr (base @ concat (map derived ((qs @ [p]) @ ps)))"
    using Cons.prems by (intro Cons.IH) auto
  finally show ?case by simp
qed

lemma add_lag_rolling_fresh:
  assumes "distinct (columns t)" "fresh_names (columns t)"
  shows "add_lag_rolling t = Inr \<lparr>date = date t, cols = cols t @ concat (map derived (cols t))\<rparr>"
  using for_each_lag_rolling [of "cols t" "[]" "cols t"] assms
  by (simp add: add_lag_rolling_def columns_def and_then_def)

subsection \<open>The stages in closed form\<close>

lemma map_fst_set_col: "map fst (set_col n v cs) = with_name n (map fst cs)"
  by (induction cs) (auto simp: with_name_def)

lemma distinct_with_name: "distinct ns \<Longrightarrow> distinct (with_name n ns)"
  by (simp add: with_name_def)

lemma columns_add_time_features: "columns (add_time_features t) = calendar_names (columns t)"
  by (simp add: add_time_features_def Let_def columns_def calendar_names_def map_fst_set_col)

lemma distinct_calendar_names: "distinct ns \<Longrightarrow> distinct (calendar_names ns)"
  by (simp add: calendar_names_def distinct_with_name)

lemma set_calendar_names:
  "set (calendar_names ns) = set ns \<union> {''day_of_week'', ''day_of_month'', ''month'', ''hour''}"
  by (auto simp: calendar_names_def with_name_def)

lemma columns_remove_outliers: "columns (remove_outliers t) = columns t"
  by (simp add: columns_def remove_outliers_def Let_def comp_def)

lemma columns_fill_missing: "columns (fill_missing t) = columns t"
  by (simp add: columns_def fill_missing_def ffill_table_def bfill_table_def comp_def)

lemma columns_filtered: "columns (filtered t) = columns t"
  by (simp add: filtered_def columns_fill_missing columns_remove_outliers)

lemma columns_scaled: "columns (scaled t) = columns t"
  by (simp add: columns_def scaled_def comp_def)

lemma cols_add_time_features_nonempty: "cols (add_time_features t) \<noteq> []"
proof -
  have "set_col n v cs \<noteq> []" for n v cs by (cases cs) auto
  then show ?thesis by (simp add: add_time_features_def Let_def)
qed

lemma len_add_time_features: "len (add_time_features t) = len t"
  by (simp add: add_time_features_def Let_def len_def)

lemma zip_map_three:
  "zip (map f xs) (zip (map g xs) (map h xs)) = map (\<lambda>x. (f x, g x, h x)) xs"
  by (induction xs) simp_all

lemma zip_map_right: "zip xs (map f xs) = map (\<lambda>x. (x, f x)) xs"
  by (induction xs) simp_all

lemma scale_dataset_closed:
  assumes "0 < len u" "cols u \<noteq> []"
  shows "scale_dataset u = Inr (fitted u, scaled u)"
proof -
  have f: "fit (len u) (map snd (cols u)) = Inr (fitted u)"
    using assms by (simp add: fit_def fitted_def scale_of_def comp_def)
  have t: "transform (fitted u) (map snd (cols u)) = map (\<lambda>c. robust_scaled (snd c)) (cols u)"
    by (simp add: transform_def fitted_def robust_scaled_def zip_map_three)
  show ?thesis
    by (simp add: scale_dataset_def fit_transform_def and_then_def f t scaled_def zip_map_right comp_def)
qed

lemma scale_dataset_empty: "len u = 0 \<Longrightarrow> scale_dataset u = Inl ValueError"
  by (simp add: scale_dataset_def fit_transform_def and_then_def fit_def)

lemma preprocess_closed:
  assumes "distinct (columns t)" "fresh_names (calendar_names (columns t))" "0 < len (filtered t)"
  shows "preprocess t
           = Inr (fitted (add_time_features (filtered t)),
                  fill_missing (augmented (scaled (add_time_features (filtered t)))))"
proof -
  define u where "u = add_time_features (filtered t)"
  have cu: "columns u = calendar_names (columns t)"
    by (simp add: u_def columns_add_time_features columns_filtered)
  have s: "scale_dataset u = Inr (fitted u, scaled u)"
    using assms(3) by (intro scale_dataset_closed)
      (simp_all add: u_def len_add_time_features cols_add_time_features_nonempty)
  have a: "add_lag_rolling (scaled u) = Inr (augmented (scaled u))"
    unfolding augmented_def
    by (rule add_lag_rolling_fresh)
       (simp_all add: columns_scaled cu assms distinct_calendar_names)
  show ?thesis
    by (simp add: preprocess_def u_def [symmetric] s a and_then_def)
qed

lemma preprocess_success:
  assumes "preprocess t = Inr (sc, fin)"
  shows "0 < len (filtered t)"
proof (rule ccontr)
  assume "\<not> 0 < len (filtered t)"
  then have "scale_dataset (add_time_features (filtered t)) = Inl ValueError"
    by (intro scale_dataset_empty) (simp add: len_add_time_features)
  with assms show False by (simp add: preprocess_def and_then_def)
qed

subsection \<open>The example tables, stage by stage\<close>

lemma quantiles_01234:
  "quantile (1 / 4) [Some 0, Some 1, Some 2, Some 3, Some 4] = Some 1"
  "quantile (1 / 2) [Some 0, Some 1, Some 2, Some 3, Some 4] = Some 2"
  "quantile (3 / 4) [Some 0, Some 1, Some 2, Some 3, Some 4] = Some 3"
  by (simp_all add: quantile_def Let_def)

lemma quantiles_01244:
  "quantile (1 / 4) [Some 0, Some 1, Some 2, Some 4, Some 4] = Some 1"
  "quantile (1 / 2) [Some 0, Some 1, Some 2, Some 4, Some 4] = Some 2"
  "quantile (3 / 4) [Some 0, Some 1, Some 2, Some 4, Some 4] = Some 4"
  by (simp_all add: quantile_def Let_def)

lemma quantiles_constant:
  "quantile (1 / 4) [Some a, Some a, Some a, Some a, Some a] = Some a"
  "quantile (1 / 2) [Some a, Some a, Some a, Some a, Some a] = Some a"
  "quantile (3 / 4) [Some a, Some a, Some a, Some a, Some a] = Some a"
  by (simp_all add: quantile_def Let_def)

lemma remove_outliers_table_a: "remove_outliers table_a = table_a"
  by (simp add: table_a_def remove_outliers_def Let_def any_axis1_def outlier_mask_def
      lower_bound_def upper_bound_def IQR_def Q1_def Q3_def quantiles_01234 cell_op_def
      cell_lt_def select_rows_def len_def upt_conv_Cons)

lemma remove_outliers_table_b: "remove_outliers table_b = table_b"
  by (simp add: table_b_def remove_outliers_def Let_def any_axis1_def outlier_mask_def
      lower_bound_def upper_bound_def IQR_def Q1_def Q3_def quantiles_01244 cell_op_def
      cell_lt_def select_rows_def len_def upt_conv_Cons)

lemma filtered_table_a: "filtered table_a = table_a"
  unfolding filtered_def remove_outliers_table_a
  by (simp add: table_a_def fill_missing_def ffill_table_def bfill_table_def ffill_def stamp_def)

lemma filtered_table_b: "filtered table_b = table_b"
  unfolding filtered_def remove_outliers_table_b
  by (simp add: table_b_def fill_missing_def ffill_table_def bfill_table_def ffill_def stamp_def)

lemma scaled_table_a:
  "scaled (add_time_features table_a) =
     \<lparr>date = map stamp [0, 1, 2, 3, 4],
      cols = [(''x'', [Some (- 1), Some (- 1 / 2), Some 0, Some (1 / 2), Some 1]),
              (''day_of_week'', [Some 0, Some 0, Some 0, Some 0, Some 0]),
              (''day_of_month'', [Some 0, Some 0, Some 0, Some 0, Some 0]),
              (''month'', [Some 0, Some 0, Some 0, Some 0, Some 0]),
              (''hour'', [Some (- 1), Some (- 1 / 2), Some 0, Some (1 / 2), Some 1])]\<rparr>"
  by (simp add: table_a_def add_time_features_def Let_def scaled_def robust_scaled_def
      scale_of_def dt_def stamp_def quantiles_01234 quantiles_constant
      handle_zeros_in_scale_def cell_op_def transform_column_def)

lemma scaled_table_b:
  "scaled (add_time_features table_b) =
     \<lparr>date = map stamp [0, 1, 2, 3, 4],
      cols = [(''x'', [Some (- 2 / 3), Some (- 1 / 3), Some 0, Some (2 / 3), Some (2 / 3)]),
              (''day_of_week'', [Some 0, Some 0, Some 0, Some 0, Some 0]),
              (''day_of_month'', [Some 0, Some 0, Some 0, Some 0, Some 0]),
              (''month'', [Some 0, Some 0, Some 0, Some 0, Some 0]),
              (''hour'', [Some (- 1), Some (- 1 / 2), Some 0, Some (1 / 2), Some 1])]\<rparr>"
  by (simp add: table_b_def add_time_features_def Let_def scaled_def robust_scaled_def
      scale_of_def dt_def stamp_def quantiles_01234 quantiles_01244 quantiles_constant
      handle_zeros_in_scale_def cell_op_def transform_column_def)

lemma fresh_table_a: "distinct (columns table_a)" "fresh_names (calendar_names (columns table_a))"
  "0 < len (filtered table_a)"
  by (simp_all add: filtered_table_a)
     (simp_all add: table_a_def columns_def calendar_names_def with_name_def fresh_names_def
       derived_names_def len_def)

lemma fresh_table_b: "distinct (columns table_b)" "fresh_names (calendar_names (columns table_b))"
  "0 < len (filtered table_b)"
  by (simp_all add: filtered_table_b)
     (simp_all add: table_b_def columns_def calendar_names_def with_name_def fresh_names_def
       derived_names_def len_def)

lemma final_columns_table_a:
  "columns (fill_missing (augmented (scaled (add_time_features table_a)))) =
    [''x'', ''day_of_week'', ''day_of_month'', ''month'', ''hour'',
     ''x_lag1'', ''x_rolling_mean'', ''x_rolling_std'',
     ''day_of_week_lag1'', ''day_of_week_rolling_mean'', ''day_of_week_rolling_std'',
     ''day_of_month_lag1'', ''day_of_month_rolling_mean'', ''day_of_month_rolling_std'',
     ''month_lag1'', ''month_rolling_mean'', ''month_rolling_std'',
     ''hour_lag1'', ''hour_rolling_mean'', ''hour_rolling_std'']"
  unfolding scaled_table_a
  by (simp add: columns_fill_missing) (simp add: columns_def augmented_def derived_def)

lemma x_lag1_table_a:
  "col (fill_missing (augmented (scaled (add_time_features table_a)))) ''x_lag1''
     = [Some (- 1), Some (- 1), Some (- 1 / 2), Some 0, Some (1 / 2)]"
  unfolding scaled_table_a
  by (simp add: col_def get_col_def augmented_def derived_def fill_missing_def ffill_table_def
      bfill_table_def shift1_def ffill_def)

subsection \<open>Which columns are scaled, and which receive lag and rolling channels\<close>

lemma map_fst_concat_derived:
  "map fst (concat (map derived cs)) = concat (map derived_names (map fst cs))"
  by (induction cs) (simp_all add: map_fst_derived)

lemma columns_augmented:
  "columns (augmented u) = columns u @ concat (map derived_names (columns u))"
  by (simp add: columns_def augmented_def map_fst_concat_derived)

lemma length_concat_derived: "length (concat (map derived cs)) = 3 * length cs"
  by (induction cs) (simp_all add: derived_def)

lemma length_cols_final:
  "length (cols (fill_missing (augmented (scaled u)))) = 4 * length (cols u)"
proof -
  have "length (cols (augmented (scaled u))) = 4 * length (cols (scaled u))"
    unfolding augmented_def by (simp add: length_concat_derived)
  then show ?thesis
    by (simp add: fill_missing_def ffill_table_def bfill_table_def scaled_def)
qed

lemma preprocess_result:
  assumes "distinct (columns t)" "fresh_names (calendar_names (columns t))"
    "preprocess t = Inr (sc, fin)"
  shows "sc = fitted (add_time_features (filtered t))"
    and "fin = fill_missing (augmented (scaled (add_time_features (filtered t))))"
  using preprocess_closed [OF assms(1,2) preprocess_success [OF assms(3)]] assms(3)
  by simp_all

text \<open>
  C5 (as amended). The loop derives the three channels for exactly the non-timestamp
  columns present when it starts: the original columns and the four calendar columns,
  which were added before. The derived columns themselves receive none.
\<close>

theorem lag_rolling_columns:
  assumes "distinct (columns t)" "fresh_names (calendar_names (columns t))"
    "preprocess t = Inr (sc, fin)"
  shows "columns fin = calendar_names (columns t)
                         @ concat (map derived_names (calendar_names (columns t)))
       \<and> set (calendar_names (columns t))
           = set (columns t) \<union> {''day_of_week'', ''day_of_month'', ''month'', ''hour''}"
  unfolding preprocess_result(2) [OF assms]
  by (simp add: columns_fill_missing columns_augmented columns_scaled
      columns_add_time_features columns_filtered set_calendar_names)

theorem lag_rolling_columns_witness:
  "distinct (columns table_a) \<and> fresh_names (calendar_names (columns table_a))
   \<and> preprocess table_a
       = Inr (fitted (add_time_features table_a),
              fill_missing (augmented (scaled (add_time_features table_a))))
   \<and> columns (fill_missing (augmented (scaled (add_time_features table_a))))
       = calendar_names (columns table_a)
           @ concat (map derived_names (calendar_names (columns table_a)))"
proof -
  have p: "preprocess table_a
       = Inr (fitted (add_time_features table_a),
              fill_missing (augmented (scaled (add_time_features table_a))))"
    using preprocess_closed [OF fresh_table_a] by (simp add: filtered_table_a)
  from lag_rolling_columns [OF fresh_table_a(1,2) p] fresh_table_a(1,2) p
  show ?thesis by simp
qed

text \<open>
  For a table whose only channel is \<open>x\<close>, the final table has lag and rolling channels of
  the four calendar columns as well.
\<close>

theorem calendar_columns_get_lags:
  "columns table_a = [''x'']
   \<and> map_sum id (\<lambda>(sc, fin). columns fin) (preprocess table_a) =
      Inr [''x'', ''day_of_week'', ''day_of_month'', ''month'', ''hour'',
       ''x_lag1'', ''x_rolling_mean'', ''x_rolling_std'',
       ''day_of_week_lag1'', ''day_of_week_rolling_mean'', ''day_of_week_rolling_std'',
       ''day_of_month_lag1'', ''day_of_month_rolling_mean'', ''day_of_month_rolling_std'',
       ''month_lag1'', ''month_rolling_mean'', ''month_rolling_std'',
       ''hour_lag1'', ''hour_rolling_mean'', ''hour_rolling_std'']"
proof -
  have "columns table_a = [''x'']" by (simp add: columns_def table_a_def)
  moreover have "map_sum id (\<lambda>(sc, fin). columns fin) (preprocess table_a)
      = Inr (columns (fill_missing (augmented (scaled (add_time_features table_a)))))"
    using preprocess_closed [OF fresh_table_a] by (simp add: filtered_table_a)
  ultimately show ?thesis by (simp only: final_columns_table_a simp_thms)
qed

text \<open>
  C4 (as amended). The scaler is fitted on, and applied to, the original and the calendar
  columns, after filtering and imputation; the lag and rolling channels are derived
  afterwards from the scaled columns and are not passed through the scaler, which has no
  parameters for them: the final table has four times as many columns as the scaler.
\<close>

theorem scaling_precedes_lag_features:
  assumes "distinct (columns t)" "fresh_names (calendar_names (columns t))"
    "preprocess t = Inr (sc, fin)"
  shows "sc = fitted (add_time_features (filtered t))
       \<and> fin = fill_missing (augmented (scaled (add_time_features (filtered t))))
       \<and> length (centers sc) = length (calendar_names (columns t))
       \<and> length (scales sc) = length (calendar_names (columns t))
       \<and> length (cols fin) = 4 * length (calendar_names (columns t))"
proof -
  have "length (cols (add_time_features (filtered t))) = length (calendar_names (columns t))"
    using columns_add_time_features [of "filtered t"]
    by (simp add: columns_def columns_filtered [unfolded columns_def] flip: length_map [of fst])
  then show ?thesis
    unfolding preprocess_result [OF assms]
    by (simp add: fitted_def length_cols_final)
qed

theorem scaling_precedes_lag_features_witness:
  "distinct (columns table_a) \<and> fresh_names (calendar_names (columns table_a))
   \<and> preprocess table_a
       = Inr (fitted (add_time_features table_a),
              fill_missing (augmented (scaled (add_time_features table_a))))
   \<and> length (centers (fitted (add_time_features table_a))) = 5
   \<and> length (cols (fill_missing (augmented (scaled (add_time_features table_a))))) = 20"
proof -
  have p: "preprocess table_a
       = Inr (fitted (add_time_features table_a),
              fill_missing (augmented (scaled (add_time_features table_a))))"
    using preprocess_closed [OF fresh_table_a] by (simp add: filtered_table_a)
  have n: "length (calendar_names (columns table_a)) = 5"
    by (simp add: calendar_names_def with_name_def columns_def table_a_def)
  from scaling_precedes_lag_features [OF fresh_table_a(1,2) p] fresh_table_a(1,2) p n
  show ?thesis by (simp add: filtered_table_a)
qed

text \<open>
  For the table with the channel \<open>0, 1, 2, 3, 4\<close> the scaler has five columns and the final
  table twenty; the final \<open>x_lag1\<close> column has the median \<open>- 1 / 2\<close>, whereas a column
  transformed by a fitted robust scaler has the median 0.
\<close>

theorem lag_column_not_scaled:
  "map_sum id (\<lambda>(sc, fin). (length (centers sc), length (cols fin), col fin ''x_lag1'',
                             quantile (1 / 2) (col fin ''x_lag1'')))
     (preprocess table_a)
   = Inr (5, 20, [Some (- 1), Some (- 1), Some (- (1 / 2)), Some 0, Some (1 / 2)],
          Some (- (1 / 2)))"
proof -
  have p: "preprocess table_a
       = Inr (fitted (add_time_features table_a),
              fill_missing (augmented (scaled (add_time_features table_a))))"
    using preprocess_closed [OF fresh_table_a] by (simp add: filtered_table_a)
  have a: "length (centers (fitted (add_time_features table_a))) = 5"
    by (simp add: fitted_def add_time_features_def Let_def table_a_def)
  have b: "length (cols (fill_missing (augmented (scaled (add_time_features table_a))))) = 20"
    using arg_cong [OF final_columns_table_a, of length] by (simp add: columns_def)
  have c: "quantile (1 / 2) [Some (- 1), Some (- 1), Some (- (1 / 2)), Some 0, Some (1 / 2)]
             = Some (- (1 / 2))"
    by (simp add: quantile_def Let_def)
  show ?thesis by (simp add: p a b x_lag1_table_a c)
qed

subsection \<open>Columns by name through the stages\<close>

lemma get_col_map:
  "get_col n (map (\<lambda>c. (fst c, f (snd c))) cs) = map_sum id f (get_col n cs)"
  by (induction cs) (auto simp: get_col_def)

lemma col_map:
  assumes "cols t' = map (\<lambda>c. (fst c, f (snd c))) (cols t)" "f [] = []"
  shows "col t' n = f (col t n)"
  by (cases "get_col n (cols t)") (simp_all add: col_def assms get_col_map)

lemma col_iloc: "col (iloc a b t) n = py_slice a b (col t n)"
  by (rule col_map) (simp_all add: iloc_def py_slice_def)

lemma col_fill_missing: "col (fill_missing t) n = bfill (ffill (col t n))"
  by (rule col_map [where f = "\<lambda>v. bfill (ffill v)"])
     (simp_all add: fill_missing_def ffill_table_def bfill_table_def comp_def ffill_def)

lemma col_scaled: "col (scaled u) n = robust_scaled (col u n)"
  by (rule col_map) (simp_all add: scaled_def robust_scaled_def transform_column_def)



lemma len_final: "len (fill_missing (augmented (scaled u))) = len u"
  by (simp add: len_def fill_missing_def ffill_table_def bfill_table_def augmented_def scaled_def)

lemma num_train_5: "num_train 5 = 3"
  by (simp add: num_train_def int_mul_float_def round53_def bitlen.simps Let_def)

text \<open>
  C3. The two example tables have the same five timestamps and the same rows except for
  row 3, which lies beyond the three training rows. The scaler fitted on the whole table
  has the scale 2 for one and 3 for the other, and the scaled values of the training
  rows differ.
\<close>

theorem scaler_fit_sees_later_rows:
  "columns table_a = columns table_b \<and> len table_a = 5 \<and> len table_b = 5
   \<and> num_train 5 = 3
   \<and> take 3 (rows table_a) = take 3 (rows table_b)
   \<and> drop 4 (rows table_a) = drop 4 (rows table_b)
   \<and> map_sum id (\<lambda>(sc, fin). (len fin, scales sc ! 0, col (train_dataset fin) ''x''))
        (preprocess table_a)
       = Inr (5, Some 2, [Some (- 1), Some (- (1 / 2)), Some 0])
   \<and> map_sum id (\<lambda>(sc, fin). (len fin, scales sc ! 0, col (train_dataset fin) ''x''))
        (preprocess table_b)
       = Inr (5, Some 3, [Some (- (2 / 3)), Some (- (1 / 3)), Some 0])"
proof -
  have pa: "preprocess table_a
       = Inr (fitted (add_time_features table_a),
              fill_missing (augmented (scaled (add_time_features table_a))))"
    using preprocess_closed [OF fresh_table_a] by (simp add: filtered_table_a)
  have pb: "preprocess table_b
       = Inr (fitted (add_time_features table_b),
              fill_missing (augmented (scaled (add_time_features table_b))))"
    using preprocess_closed [OF fresh_table_b] by (simp add: filtered_table_b)
  have la: "len (add_time_features table_a) = 5" "len (add_time_features table_b) = 5"
    unfolding len_add_time_features by (simp_all add: len_def table_a_def table_b_def)
  have sa: "scales (fitted (add_time_features table_a)) ! 0 = Some 2"
    by (simp add: fitted_def add_time_features_def Let_def table_a_def scale_of_def
        quantiles_01234 cell_op_def handle_zeros_in_scale_def)
  have sb: "scales (fitted (add_time_features table_b)) ! 0 = Some 3"
    by (simp add: fitted_def add_time_features_def Let_def table_b_def scale_of_def
        quantiles_01244 cell_op_def handle_zeros_in_scale_def)
  have xa: "col (train_dataset (fill_missing (augmented (scaled (add_time_features table_a))))) ''x''
             = [Some (- 1), Some (- (1 / 2)), Some 0]"
    unfolding train_dataset_def len_final la num_train_5 col_iloc col_fill_missing
    unfolding scaled_table_a
    by (simp add: col_def get_col_def augmented_def ffill_def py_slice_def slice_bound_def)
  have xb: "col (train_dataset (fill_missing (augmented (scaled (add_time_features table_b))))) ''x''
             = [Some (- (2 / 3)), Some (- (1 / 3)), Some 0]"
    unfolding train_dataset_def len_final la num_train_5 col_iloc col_fill_missing
    unfolding scaled_table_b
    by (simp add: col_def get_col_def augmented_def ffill_def py_slice_def slice_bound_def)
  have r: "columns table_a = columns table_b" "len table_a = 5" "len table_b = 5"
    "take 3 (rows table_a) = take 3 (rows table_b)"
    "drop 4 (rows table_a) = drop 4 (rows table_b)"
    by (simp_all add: columns_def len_def rows_def row_def table_a_def table_b_def upt_conv_Cons)
  show ?thesis
    by (simp add: r num_train_5 pa pb len_final la sa sb xa xb)
qed

subsection \<open>Columns after imputation are complete or empty\<close>


lemma complete_dt: "all_present (dt f ts) \<longleftrightarrow> all_present ts"
  by (induction ts) (auto simp: dt_def all_present_def)



lemma length_dt [simp]: "length (dt f ts) = length ts"
  by (simp add: dt_def)

lemma list_all_set_col:
  "list_all Q cs \<Longrightarrow> Q (n, w) \<Longrightarrow> list_all Q (set_col n w cs)"
  by (induction cs) auto

lemma list_all_add_time_features:
  assumes "list_all (\<lambda>c. P (snd c)) (cols u)"
    and "\<And>f. P (dt f (date u))"
  shows "list_all (\<lambda>c. P (snd c)) (cols (add_time_features u))"
  unfolding add_time_features_def Let_def table.simps
  by (intro list_all_set_col assms) (simp_all add: assms(2))

lemma present_Nil_iff: "present xs = [] \<longleftrightarrow> \<not> has_value xs"
  by (induction xs rule: present.induct) (simp_all add: has_value_def)

lemma sort_Nil_iff: "sort xs = [] \<longleftrightarrow> xs = []"
  by (metis length_0_conv length_sort)

lemma quantile_Some: "has_value v \<Longrightarrow> \<exists>y. quantile q v = Some y"
  using present_Nil_iff [of v] by (simp add: quantile_def Let_def sort_Nil_iff)

lemma quantile_None: "\<not> has_value v \<Longrightarrow> quantile q v = None"
  using present_Nil_iff [of v] by (simp add: quantile_def Let_def sort_Nil_iff)

lemma scale_of_Some: "has_value v \<Longrightarrow> \<exists>y. scale_of v = Some y"
  using quantile_Some [of v "3 / 4"] quantile_Some [of v "1 / 4"]
  by (auto simp: scale_of_def cell_op_def handle_zeros_in_scale_def)

lemma length_robust_scaled [simp]: "length (robust_scaled v) = length v"
  by (simp add: robust_scaled_def transform_column_def)

lemma complete_robust_scaled: "all_present v \<Longrightarrow> all_present (robust_scaled v)"
proof (cases "v = []")
  case True
  then show ?thesis by (simp add: robust_scaled_def transform_column_def all_present_def)
next
  case False
  assume c: "all_present v"
  with False have "has_value v"
    by (cases v) (auto simp: all_present_def has_value_def)
  then obtain m s where "quantile (1 / 2) v = Some m" "scale_of v = Some s"
    using quantile_Some scale_of_Some by blast
  with c show ?thesis
    by (auto simp: robust_scaled_def transform_column_def all_present_def list_all_iff cell_op_def)
qed



subsection \<open>Well-formedness through the stages\<close>

lemma well_formed_fill_missing: "well_formed t \<Longrightarrow> well_formed (fill_missing t)"
  by (simp add: well_formed_def fill_missing_def ffill_table_def bfill_table_def len_def
      list_all_iff columns_def comp_def)

lemma well_formed_filtered: "well_formed t \<Longrightarrow> well_formed (filtered t)"
  by (simp add: filtered_def well_formed_fill_missing remove_outliers_well_formed)

lemma well_formed_add_time_features:
  assumes "well_formed t"
  shows "well_formed (add_time_features t)"
proof -
  have d: "distinct (columns (add_time_features t))"
    using assms by (simp add: columns_add_time_features distinct_calendar_names well_formed_def)
  have "list_all (\<lambda>c. length (snd c) = len t) (cols (add_time_features t))"
    using assms by (intro list_all_add_time_features) (simp_all add: well_formed_def len_def)
  then show ?thesis
    using d by (simp add: well_formed_def len_add_time_features)
qed

lemma well_formed_scaled: "well_formed t \<Longrightarrow> well_formed (scaled t)"
  by (simp add: well_formed_def columns_scaled)
     (simp add: scaled_def len_def list_all_iff)





subsection \<open>Cells of the lag and rolling channels\<close>





lemma length_shift1 [simp]: "length (shift1 v) = length v"
  by (simp add: shift1_def)

lemma shift1_nth: "0 < i \<Longrightarrow> i < length v \<Longrightarrow> shift1 v ! i = v ! (i - 1)"
  by (cases i) (simp_all add: shift1_def)


lemma all_present_nth: "all_present xs \<Longrightarrow> i < length xs \<Longrightarrow> \<exists>v. xs ! i = Some v"
  by (metis all_present_iff nth_mem not_None_eq)

lemma empty_nth: "\<not> has_value xs \<Longrightarrow> i < length xs \<Longrightarrow> xs ! i = None"
  by (metis has_value_iff nth_mem not_None_eq)


lemma length_rolling [simp]: "length (rolling w f v) = length v"
  by (simp add: rolling_def)

lemma rolling_nth:
  "i < length v \<Longrightarrow> w \<le> i + 1 \<Longrightarrow>
     rolling w f v ! i = aggregate w f (take w (drop (i + 1 - w) v))"
  by (simp add: rolling_def)

lemma present_complete: "all_present xs \<Longrightarrow> length (present xs) = length xs"
  by (induction xs rule: present.induct) (simp_all add: all_present_def)

lemma complete_take_drop: "all_present xs \<Longrightarrow> all_present (take k (drop m xs))"
  by (auto simp: all_present_iff dest!: in_set_takeD in_set_dropD)





subsection \<open>The columns of the final table\<close>







subsection \<open>Derived features across the split boundaries\<close>







lemma quantiles_012345:
  "quantile (1 / 4) [Some 0, Some 1, Some 2, Some 3, Some 4, Some 5] = Some (5 / 4)"
  "quantile (3 / 4) [Some 0, Some 1, Some 2, Some 3, Some 4, Some 5] = Some (15 / 4)"
  by (simp_all add: quantile_def Let_def)

lemma remove_outliers_table_e: "remove_outliers table_e = table_e"
  by (simp add: table_e_def remove_outliers_def Let_def any_axis1_def outlier_mask_def
      lower_bound_def upper_bound_def IQR_def Q1_def Q3_def quantiles_012345 cell_op_def
      cell_lt_def select_rows_def len_def upt_conv_Cons)

lemma filtered_table_e: "filtered table_e = table_e"
  unfolding filtered_def remove_outliers_table_e
  by (simp add: table_e_def fill_missing_def ffill_table_def bfill_table_def ffill_def stamp_def)

lemma table_e_facts:
  "well_formed table_e" "fresh_names (calendar_names (columns table_e))"
  "len table_e = 6" "''x'' \<in> set (calendar_names (columns table_e))"
  by (simp_all add: table_e_def well_formed_def columns_def calendar_names_def with_name_def
      fresh_names_def derived_names_def len_def)



subsection \<open>Imputation\<close>

lemma complete_has_value: "all_present xs \<Longrightarrow> xs \<noteq> [] \<Longrightarrow> has_value xs"
  by (cases xs) (auto simp: all_present_def has_value_def)

lemma has_value_nth: "i < length xs \<Longrightarrow> xs ! i = Some v \<Longrightarrow> has_value xs"
  unfolding has_value_iff by (metis nth_mem)

lemma shift1_has_value:
  assumes "all_present v" "2 \<le> length v"
  shows "has_value (shift1 v)"
proof -
  have "0 < length v" using assms(2) by linarith
  then obtain x where "v ! 0 = Some x" using all_present_nth [OF assms(1), of 0] by blast
  then have "shift1 v ! 1 = Some x" using assms(2) by (simp add: shift1_nth)
  then show ?thesis using assms(2) by (intro has_value_nth [of 1]) simp_all
qed

lemma rolling_has_value:
  assumes "all_present v" "0 < w" "w \<le> length v"
  shows "has_value (rolling w f v)"
proof -
  have "length (take w (drop (w - 1 + 1 - w) v)) = w" using assms by simp
  then have "length (present (take w (drop (w - 1 + 1 - w) v))) = w"
    using present_complete [OF complete_take_drop [OF assms(1)]] by simp
  then obtain x where "aggregate w f (take w (drop (w - 1 + 1 - w) v)) = Some x"
    by (simp add: aggregate_def Let_def)
  then have "rolling w f v ! (w - 1) = Some x"
    using assms rolling_nth [of "w - 1" v w f] by simp
  then show ?thesis using assms by (intro has_value_nth [of "w - 1"]) simp_all
qed

lemma no_missing_filtered:
  assumes "has_value (date (remove_outliers t))"
    "list_all (\<lambda>c. has_value (snd c)) (cols (remove_outliers t))"
  shows "no_missing (filtered t)"
  using assms
  by (simp add: no_missing_def filtered_def fill_missing_def ffill_table_def bfill_table_def
      list_all_iff fill_complete)

lemma no_missing_final:
  assumes "no_missing (filtered t)" "well_formed t" "5 \<le> len (filtered t)"
  shows "no_missing (fill_missing (augmented (scaled (add_time_features (filtered t)))))"
proof -
  define u where "u = add_time_features (filtered t)"
  define S where "S = scaled u"
  have wS: "well_formed S"
    unfolding S_def u_def
    by (intro well_formed_scaled well_formed_add_time_features well_formed_filtered assms(2))
  have lS: "len S = len (filtered t)"
    by (simp add: S_def u_def scaled_def len_def add_time_features_def Let_def)
  have "list_all (\<lambda>c. all_present (snd c)) (cols u)"
    unfolding u_def using assms(1)
    by (intro list_all_add_time_features) (simp_all add: no_missing_def complete_dt)
  then have cS: "all_present (snd c)" if "c \<in> set (cols S)" for c
    using that by (auto simp: S_def scaled_def list_all_iff complete_robust_scaled)
  have len5: "5 \<le> length (snd c)" if "c \<in> set (cols S)" for c
    using that wS lS assms(3) by (auto simp: well_formed_def list_all_iff)
  have dS: "all_present (bfill (ffill (snd c')))" if "c \<in> set (cols S)" "c' \<in> set (derived c)" for c c'
  proof -
    have "has_value (snd c')"
      using that(2) cS [OF that(1)] len5 [OF that(1)]
      by (auto simp: derived_def shift1_has_value rolling_has_value)
    then show ?thesis by (rule fill_complete)
  qed
  have "all_present (date S)"
    using assms(1) by (simp add: S_def u_def scaled_def add_time_features_def Let_def no_missing_def)
  moreover have "all_present (bfill (ffill v))" if "(k, v) \<in> set (cols S)" for k v
    using cS [OF that] by (simp add: fill_id)
  moreover have "all_present (bfill (ffill v'))"
    if "(k, v) \<in> set (cols S)" "(k', v') \<in> set (derived (k, v))" for k v k' v'
    using dS [OF that] by simp
  ultimately show ?thesis
    unfolding S_def [symmetric, unfolded u_def [symmetric]] u_def [symmetric] S_def [symmetric]
    by (auto simp: no_missing_def fill_missing_def ffill_table_def bfill_table_def augmented_def
        list_all_iff fill_id)
qed

text \<open>
  C8 (as amended). If every column, the timestamp column included, still has a value
  among the rows that survive the outlier removal, the filtered and filled table has no
  missing cell. If moreover at least five rows survive (and no column name is another
  column's name followed by a derived suffix), the preprocessing succeeds and the final table, after the second
  fill, has no missing cell either: the leading gaps of the lag and rolling channels are
  filled.
\<close>

theorem imputation_total:
  assumes "has_value (date (remove_outliers t))"
    "list_all (\<lambda>c. has_value (snd c)) (cols (remove_outliers t))"
  shows "no_missing (filtered t)
       \<and> (well_formed t \<and> fresh_names (calendar_names (columns t)) \<and> 5 \<le> len (filtered t)
            \<longrightarrow> (\<exists>sc fin. preprocess t = Inr (sc, fin) \<and> no_missing fin))"
proof -
  have a: "no_missing (filtered t)" by (rule no_missing_filtered [OF assms])
  have "\<exists>sc fin. preprocess t = Inr (sc, fin) \<and> no_missing fin"
    if "well_formed t" "fresh_names (calendar_names (columns t))" "5 \<le> len (filtered t)"
  proof -
    have "distinct (columns t)" "0 < len (filtered t)"
      using that by (simp_all add: well_formed_def)
    from preprocess_closed [OF this(1) that(2) this(2)] no_missing_final [OF a that(1,3)]
    show ?thesis by blast
  qed
  with a show ?thesis by blast
qed

theorem imputation_total_witness:
  "has_value (date (remove_outliers table_e))
   \<and> list_all (\<lambda>c. has_value (snd c)) (cols (remove_outliers table_e))
   \<and> well_formed table_e \<and> fresh_names (calendar_names (columns table_e))
   \<and> 5 \<le> len (filtered table_e)
   \<and> no_missing (filtered table_e)
   \<and> (\<exists>sc fin. preprocess table_e = Inr (sc, fin) \<and> no_missing fin)"
proof -
  have h: "has_value (date (remove_outliers table_e))"
    "list_all (\<lambda>c. has_value (snd c)) (cols (remove_outliers table_e))"
    unfolding remove_outliers_table_e
    by (simp_all add: table_e_def has_value_def stamp_def)
  have l: "5 \<le> len (filtered table_e)"
    by (simp add: filtered_table_e table_e_facts(3))
  from imputation_total [OF h] h l table_e_facts(1,2) show ?thesis by blast
qed

text \<open>
  In this table every column has a value, but the only value of column \<open>a\<close> sits in the
  row that column \<open>b\<close> makes an outlier; after the removal column \<open>a\<close> is entirely
  missing and the fill leaves it so.
\<close>

theorem imputation_gap:
  "has_value (date table_d) \<and> list_all (\<lambda>c. has_value (snd c)) (cols table_d)
   \<and> filtered table_d
       = \<lparr>date = map stamp [1, 2, 3, 4],
          cols = [(''a'', [None, None, None, None]),
                  (''b'', [Some 1, Some 1, Some 1, Some 1])]\<rparr>
   \<and> \<not> no_missing (filtered table_d)"
proof -
  have q: "quantile (1 / 4) [Some 5, None, None, None, None] = Some 5"
    "quantile (3 / 4) [Some 5, None, None, None, None] = Some 5"
    "quantile (1 / 4) [Some 100, Some 1, Some 1, Some 1, Some 1] = Some 1"
    "quantile (3 / 4) [Some 100, Some 1, Some 1, Some 1, Some 1] = Some 1"
    by (simp_all add: quantile_def Let_def)
  have r: "remove_outliers table_d
       = \<lparr>date = map stamp [1, 2, 3, 4],
          cols = [(''a'', [None, None, None, None]),
                  (''b'', [Some 1, Some 1, Some 1, Some 1])]\<rparr>"
    by (simp add: table_d_def remove_outliers_def Let_def any_axis1_def outlier_mask_def
      lower_bound_def upper_bound_def IQR_def Q1_def Q3_def q cell_op_def
      cell_lt_def select_rows_def len_def upt_conv_Cons)
  have f: "filtered table_d
       = \<lparr>date = map stamp [1, 2, 3, 4],
          cols = [(''a'', [None, None, None, None]),
                  (''b'', [Some 1, Some 1, Some 1, Some 1])]\<rparr>"
    unfolding filtered_def r
    by (simp add: fill_missing_def ffill_table_def bfill_table_def ffill_def stamp_def)
  have "has_value (date table_d)" "list_all (\<lambda>c. has_value (snd c)) (cols table_d)"
    by (simp_all add: table_d_def has_value_def stamp_def)
  moreover have "\<not> no_missing (filtered table_d)"
    unfolding f by (simp add: no_missing_def all_present_def)
  ultimately show ?thesis using f by simp
qed

end
